theory Spec2Isabelle
  imports Complex_Main
begin

section \<open>The assignment solver of hungarian.c\<close>

text \<open>
  The solver \<^verbatim>\<open>hungarian(n, m, cost, match_out)\<close> is embedded as a function on
  explicit state.  The caller's matrix \<^verbatim>\<open>double **cost\<close> is read through \<open>cost i j\<close> (the C
  expression \<^verbatim>\<open>cost[i][j]\<close>); the working arrays of one call are lists of length \<open>N + 1\<close>.
  Indices held in \<^verbatim>\<open>p\<close>, \<^verbatim>\<open>way\<close> and \<^verbatim>\<open>j0\<close> never leave \<open>0..N\<close>, so they are natural
  numbers; the dimensions \<open>n\<close> and \<open>m\<close> are signed.  Both do-while loops may fail to
  terminate, so they are partial functions into \<open>option\<close>, with \<open>None\<close> for a run that never
  returns.

  The C type \<^verbatim>\<open>double\<close> is idealised as \<^typ>\<open>real\<close>: sums, differences and comparisons
  are exact.  The idealisation is the arithmetic of the code itself when the costs are
  whole numbers of magnitude at most \<open>10^6\<close>: the padding cost \<open>10^9\<close>, the potentials, the
  reduced costs and the total are then whole numbers far below \<open>2^53\<close>, on which binary64
  addition, subtraction and comparison are exact.  On other costs binary64 rounds, so
  statements that depend on an exact equality between potentials and costs are made for
  whole-number costs only; statements about the control flow and the shape of the result
  are made for costs up to \<open>2 * 10^17\<close> in magnitude, a quarter of the sentinel \<^verbatim>\<open>INF\<close>.
\<close>

subsection \<open>Constants and the padded square\<close>

definition INF_d :: real where
  "INF_d = 1000000000000000000"

definition PAD_d :: real where
  "PAD_d = 1000000000"

definition pad_cell :: "int \<Rightarrow> int \<Rightarrow> (nat \<Rightarrow> nat \<Rightarrow> real) \<Rightarrow> nat \<Rightarrow> nat \<Rightarrow> real" where
  "pad_cell n m cost i j =
     (if 0 < i \<and> 0 < j \<and> int i \<le> n \<and> int j \<le> m then cost (i - 1) (j - 1) else PAD_d)"

definition pad :: "int \<Rightarrow> int \<Rightarrow> (nat \<Rightarrow> nat \<Rightarrow> real) \<Rightarrow> nat \<Rightarrow> real list list" where
  "pad n m cost N = map (\<lambda>i. map (\<lambda>j. pad_cell n m cost i j) [0..<N + 1]) [0..<N + 1]"

subsection \<open>Working state of one call\<close>

record hstate =
  u :: "real list"
  v :: "real list"
  p :: "nat list"
  way :: "nat list"
  minv :: "real list"
  used :: "bool list"
  j0 :: nat

definition init_state :: "nat \<Rightarrow> hstate" where
  "init_state N =
     \<lparr>u = replicate (N + 1) 0, v = replicate (N + 1) 0, p = replicate (N + 1) 0,
      way = replicate (N + 1) 0, minv = [], used = [], j0 = 0\<rparr>"

subsection \<open>The relaxation loop (lines 46 to 50)\<close>

definition relax_step ::
    "real list list \<Rightarrow> nat \<Rightarrow> nat \<Rightarrow> hstate \<times> real \<times> nat \<Rightarrow> hstate \<times> real \<times> nat" where
  "relax_step a i0 j = (\<lambda>(s, delta, j1).
     if \<not> used s ! j then
       let cur = a ! i0 ! j - u s ! i0 - v s ! j;
           s1 = (if cur < minv s ! j
                 then s\<lparr>way := (way s)[j := j0 s], minv := (minv s)[j := cur]\<rparr> else s)
       in if minv s1 ! j < delta then (s1, minv s1 ! j, j) else (s1, delta, j1)
     else (s, delta, j1))"

definition relax :: "real list list \<Rightarrow> nat \<Rightarrow> nat \<Rightarrow> hstate \<Rightarrow> hstate \<times> real \<times> nat" where
  "relax a N i0 s = fold (relax_step a i0) [1..<N + 1] (s, INF_d, 0)"

subsection \<open>The potential update loop (lines 51 to 54)\<close>

definition update_step :: "real \<Rightarrow> nat \<Rightarrow> hstate \<Rightarrow> hstate" where
  "update_step delta j s =
     (if used s ! j
      then s\<lparr>u := (u s)[p s ! j := u s ! (p s ! j) + delta], v := (v s)[j := v s ! j - delta]\<rparr>
      else s\<lparr>minv := (minv s)[j := minv s ! j - delta]\<rparr>)"

definition update :: "real \<Rightarrow> nat \<Rightarrow> hstate \<Rightarrow> hstate" where
  "update delta N s = fold (update_step delta) [0..<N + 1] s"

subsection \<open>The search loop (lines 41 to 56) and the augmentation (lines 59 to 63)\<close>

definition search_round :: "real list list \<Rightarrow> nat \<Rightarrow> hstate \<Rightarrow> hstate" where
  "search_round a N s =
     (let s1 = s\<lparr>used := (used s)[j0 s := True]\<rparr>;
          i0 = p s1 ! j0 s1
      in case relax a N i0 s1 of (s2, delta, j1) \<Rightarrow> (update delta N s2)\<lparr>j0 := j1\<rparr>)"

partial_function (option) search :: "real list list \<Rightarrow> nat \<Rightarrow> hstate \<Rightarrow> hstate option" where
  [code]: "search a N s =
     (let s' = search_round a N s
      in if p s' ! j0 s' \<noteq> 0 then search a N s' else Some s')"

definition augment_step :: "hstate \<Rightarrow> hstate" where
  "augment_step s = (let j1 = way s ! j0 s in s\<lparr>p := (p s)[j0 s := p s ! j1], j0 := j1\<rparr>)"

partial_function (option) augment :: "hstate \<Rightarrow> hstate option" where
  [code]: "augment s = (let s' = augment_step s in if j0 s' \<noteq> 0 then augment s' else Some s')"

subsection \<open>One outer iteration and the outer loop (lines 34 to 67)\<close>

definition start_row :: "nat \<Rightarrow> nat \<Rightarrow> hstate \<Rightarrow> hstate" where
  "start_row N i s =
     s\<lparr>p := (p s)[0 := i], minv := replicate (N + 1) INF_d,
       used := replicate (N + 1) False, j0 := 0\<rparr>"

definition insert_row :: "real list list \<Rightarrow> nat \<Rightarrow> nat \<Rightarrow> hstate \<Rightarrow> hstate option" where
  "insert_row a N i s =
     (case search a N (start_row N i s) of None \<Rightarrow> None | Some s' \<Rightarrow> augment s')"

fun insert_rows :: "real list list \<Rightarrow> nat \<Rightarrow> nat list \<Rightarrow> hstate \<Rightarrow> hstate option" where
  "insert_rows a N [] s = Some s"
| "insert_rows a N (i # is) s =
     (case insert_row a N i s of None \<Rightarrow> None | Some s' \<Rightarrow> insert_rows a N is s')"

subsection \<open>Result extraction (lines 69 to 79)\<close>

definition total_cost :: "int \<Rightarrow> int \<Rightarrow> (nat \<Rightarrow> nat \<Rightarrow> real) \<Rightarrow> nat \<Rightarrow> nat list \<Rightarrow> real" where
  "total_cost n m cost N ps =
     fold (\<lambda>j r. if 0 < ps ! j \<and> int (ps ! j) \<le> n \<and> int j \<le> m
                  then r + cost (ps ! j - 1) (j - 1) else r) [1..<N + 1] 0"

definition clear_match :: "int \<Rightarrow> int list \<Rightarrow> int list" where
  "clear_match m out = fold (\<lambda>j out. out[j := - 1]) [0..<nat m] out"

definition write_match :: "int \<Rightarrow> int \<Rightarrow> nat list \<Rightarrow> int list \<Rightarrow> int list" where
  "write_match n m ps out =
     fold (\<lambda>j out. if 0 < ps ! j \<and> int (ps ! j) \<le> n then out[j - 1 := int (ps ! j) - 1] else out)
       [1..<nat m + 1] out"

definition hungarian ::
    "int \<Rightarrow> int \<Rightarrow> (nat \<Rightarrow> nat \<Rightarrow> real) \<Rightarrow> int list \<Rightarrow> (real \<times> int list) option" where
  "hungarian n m cost match_out =
     (let N = nat (max n m);
          a = pad n m cost N
      in case insert_rows a N [1..<N + 1] (init_state N) of
           None \<Rightarrow> None
         | Some s \<Rightarrow> Some (total_cost n m cost N (p s),
                           write_match n m (p s) (clear_match m match_out)))"

definition matrix :: "real list list \<Rightarrow> nat \<Rightarrow> nat \<Rightarrow> real" where
  "matrix rows i j = rows ! i ! j"

subsection \<open>The call on C integers and C allocation\<close>

text \<open>
  \<open>hungarian\<close> runs the body of the function on mathematical integers and on arrays that
  exist.  In C the dimensions are \<^verbatim>\<open>int\<close>, and line 18 computes \<^verbatim>\<open>N+1\<close> in \<^verbatim>\<open>int\<close> (as do the
  loops that count up to \<^verbatim>\<open>N\<close>): with \<open>N = INT_MAX\<close> this is a signed overflow, which is
  undefined behaviour.  The results of \<^verbatim>\<open>malloc\<close> and \<^verbatim>\<open>calloc\<close> are used unchecked; \<open>mem_ok\<close>
  says that every allocation whose block the call goes on to access returned a non-null
  pointer (with \<open>N < 0\<close> no block is accessed, with \<open>N \<ge> 0\<close> at least \<^verbatim>\<open>a[0][0]\<close> is written).
  The byte sizes are computed in \<^verbatim>\<open>size_t\<close>, taken to be 64 bits wide, where they do not wrap.
  Both kinds of undefined behaviour are results of \<open>hungarian_call\<close>; a dimension above
  \<open>INT_MAX\<close> is not a C \<^verbatim>\<open>int\<close> and is counted with the overflow.
\<close>

datatype fault = Signed_overflow | Null_dereference

definition INT_MAX :: int where
  "INT_MAX = 2147483647"

definition hungarian_call ::
    "bool \<Rightarrow> int \<Rightarrow> int \<Rightarrow> (nat \<Rightarrow> nat \<Rightarrow> real) \<Rightarrow> int list
       \<Rightarrow> (fault + real \<times> int list) option" where
  "hungarian_call mem_ok n m cost match_out =
     (if INT_MAX \<le> max n m then Some (Inl Signed_overflow)
      else if 0 \<le> max n m \<and> \<not> mem_ok then Some (Inl Null_dereference)
      else map_option Inr (hungarian n m cost match_out))"

section \<open>Invariants and specification predicates\<close>

definition rc :: "real list list \<Rightarrow> hstate \<Rightarrow> nat \<Rightarrow> nat \<Rightarrow> real" where
  "rc a s i j = a ! i ! j - u s ! i - v s ! j"

definition relax_post ::
  "real list list \<Rightarrow> nat \<Rightarrow> hstate \<Rightarrow> nat \<Rightarrow> hstate \<Rightarrow> real \<Rightarrow> nat \<Rightarrow> bool" where
  "relax_post a i0 s k s' d j1 \<longleftrightarrow>
     u s' = u s \<and> v s' = v s \<and> p s' = p s \<and> used s' = used s \<and> j0 s' = j0 s \<and>
     length (way s') = length (way s) \<and> length (minv s') = length (minv s) \<and>
     (\<forall>j. minv s' ! j =
        (if 1 \<le> j \<and> j \<le> k \<and> \<not> used s ! j \<and> rc a s i0 j < minv s ! j
         then rc a s i0 j else minv s ! j)) \<and>
     (\<forall>j. way s' ! j =
        (if 1 \<le> j \<and> j \<le> k \<and> \<not> used s ! j \<and> rc a s i0 j < minv s ! j
         then j0 s else way s ! j)) \<and>
     d \<le> INF_d \<and>
     (\<forall>j. 1 \<le> j \<and> j \<le> k \<and> \<not> used s ! j \<longrightarrow> d \<le> minv s' ! j) \<and>
     (if j1 = 0 then d = INF_d
      else 1 \<le> j1 \<and> j1 \<le> k \<and> \<not> used s ! j1 \<and> d = minv s' ! j1 \<and> d < INF_d)"

definition update_post :: "real \<Rightarrow> hstate \<Rightarrow> nat \<Rightarrow> hstate \<Rightarrow> bool" where
  "update_post d s k s' \<longleftrightarrow>
     p s' = p s \<and> way s' = way s \<and> used s' = used s \<and> j0 s' = j0 s \<and>
     length (u s') = length (u s) \<and> length (v s') = length (v s) \<and>
     length (minv s') = length (minv s) \<and>
     (\<forall>j. v s' ! j = (if j < k \<and> used s ! j then v s ! j - d else v s ! j)) \<and>
     (\<forall>j. minv s' ! j = (if j < k \<and> \<not> used s ! j then minv s ! j - d else minv s ! j)) \<and>
     (\<forall>r. u s' ! r = (if \<exists>j<k. used s ! j \<and> p s ! j = r then u s ! r + d else u s ! r))"

definition used_row :: "nat \<Rightarrow> hstate \<Rightarrow> nat \<Rightarrow> bool" where
  "used_row N s r \<longleftrightarrow> (\<exists>j\<le>N. used s ! j \<and> p s ! j = r)"

definition round_post ::
  "real list list \<Rightarrow> nat \<Rightarrow> hstate \<Rightarrow> real \<Rightarrow> hstate \<Rightarrow> bool" where
  "round_post a N s d s' \<longleftrightarrow>
     p s' = p s \<and>
     length (u s') = length (u s) \<and> length (v s') = length (v s) \<and>
     length (way s') = length (way s) \<and> length (minv s') = length (minv s) \<and>
     length (used s') = length (used s) \<and>
     (\<forall>j\<le>N. used s' ! j = (j = j0 s \<or> used s ! j)) \<and>
     (\<forall>j\<le>N. v s' ! j = (if used s' ! j then v s ! j - d else v s ! j)) \<and>
     (\<forall>r. u s' ! r = (if used_row N s' r then u s ! r + d else u s ! r)) \<and>
     (\<forall>j\<le>N. 1 \<le> j \<and> \<not> used s' ! j \<longrightarrow>
        minv s' ! j = min (minv s ! j) (rc a s (p s ! j0 s) j) - d \<and>
        way s' ! j = (if rc a s (p s ! j0 s) j < minv s ! j then j0 s else way s ! j)) \<and>
     (\<forall>j\<le>N. used s' ! j \<longrightarrow> way s' ! j = way s ! j) \<and>
     d \<le> INF_d \<and>
     (\<forall>j\<le>N. 1 \<le> j \<and> \<not> used s' ! j \<longrightarrow> 0 \<le> minv s' ! j) \<and>
     j0 s' \<le> N \<and>
     (if j0 s' = 0 then d = INF_d
      else \<not> used s' ! j0 s' \<and> minv s' ! j0 s' = 0 \<and> d < INF_d)"

definition BND_d :: real where
  "BND_d = 200000000000000000"

definition bounded :: "real list list \<Rightarrow> nat \<Rightarrow> bool" where
  "bounded a N \<longleftrightarrow> (\<forall>r c. 1 \<le> r \<and> r \<le> N \<and> 1 \<le> c \<and> c \<le> N \<longrightarrow> \<bar>a ! r ! c\<bar> \<le> BND_d)"

definition matched :: "nat \<Rightarrow> hstate \<Rightarrow> nat set" where
  "matched N s = {j. 1 \<le> j \<and> j \<le> N \<and> p s ! j \<noteq> 0}"

definition core_inv :: "real list list \<Rightarrow> nat \<Rightarrow> nat \<Rightarrow> hstate \<Rightarrow> bool" where
  "core_inv a N k s \<longleftrightarrow>
     length (u s) = N + 1 \<and> length (v s) = N + 1 \<and> length (p s) = N + 1 \<and>
     length (way s) = N + 1 \<and>
     inj_on ((!) (p s)) (matched N s) \<and> (!) (p s) ` matched N s = {1..k} \<and>
     (\<forall>j\<in>matched N s. rc a s (p s ! j) j = 0) \<and>
     (\<forall>r\<in>{1..k}. \<forall>j\<in>{1..N}. 0 \<le> rc a s r j) \<and>
     (\<forall>j\<in>{1..N}. v s ! j \<le> 0 \<and> (p s ! j = 0 \<longrightarrow> v s ! j = 0)) \<and>
     (\<forall>r. k + 1 < r \<and> r \<le> N \<longrightarrow> u s ! r = 0)"

definition first_inv :: "nat \<Rightarrow> nat \<Rightarrow> hstate \<Rightarrow> bool" where
  "first_inv N i s \<longleftrightarrow>
     j0 s = 0 \<and> (\<forall>j\<le>N. \<not> used s ! j) \<and> (\<forall>j\<le>N. minv s ! j = INF_d) \<and> u s ! i = 0"

definition later_inv :: "real list list \<Rightarrow> nat \<Rightarrow> nat \<Rightarrow> hstate \<Rightarrow> bool" where
  "later_inv a N i s \<longleftrightarrow>
     1 \<le> j0 s \<and> (\<forall>j\<in>{1..N}. 0 \<le> rc a s i j) \<and> minv s ! j0 s = 0 \<and>
     (\<forall>j\<in>{1..N}. \<not> used s ! j \<longrightarrow>
        minv s ! j < INF_d \<and> used s ! (way s ! j) \<and> way s ! j \<le> N \<and>
        minv s ! j = rc a s (p s ! (way s ! j)) j \<and>
        (\<forall>j'\<le>N. used s ! j' \<longrightarrow> minv s ! j \<le> rc a s (p s ! j') j)) \<and>
     (\<exists>f::nat \<Rightarrow> nat. \<forall>j\<in>{1..N}. used s ! j \<longrightarrow>
        used s ! (way s ! j) \<and> way s ! j \<le> N \<and> f (way s ! j) < f j \<and>
        rc a s (p s ! (way s ! j)) j = 0)"

definition search_inv :: "real list list \<Rightarrow> nat \<Rightarrow> nat \<Rightarrow> hstate \<Rightarrow> bool" where
  "search_inv a N i s \<longleftrightarrow>
     1 \<le> i \<and> i \<le> N \<and> core_inv a N (i - 1) s \<and>
     length (minv s) = N + 1 \<and> length (used s) = N + 1 \<and>
     p s ! 0 = i \<and> j0 s \<le> N \<and> \<not> used s ! j0 s \<and>
     (\<forall>j\<le>N. used s ! j \<longrightarrow> j = 0 \<or> p s ! j \<noteq> 0) \<and>
     (if used s ! 0 then later_inv a N i s else first_inv N i s)"

definition continues :: "hstate \<Rightarrow> bool" where
  "continues s \<longleftrightarrow> p s ! j0 s \<noteq> 0"

definition exits_after :: "real list list \<Rightarrow> nat \<Rightarrow> hstate \<Rightarrow> nat \<Rightarrow> bool" where
  "exits_after a N s k \<longleftrightarrow>
     1 \<le> k \<and> \<not> continues ((search_round a N ^^ k) s) \<and>
     (\<forall>k'. 1 \<le> k' \<and> k' < k \<longrightarrow> continues ((search_round a N ^^ k') s))"

definition usedset :: "nat \<Rightarrow> hstate \<Rightarrow> nat set" where
  "usedset N s = {j. j \<le> N \<and> used s ! j}"

definition pending :: "nat \<Rightarrow> hstate \<Rightarrow> nat set" where
  "pending N s = {j. j \<le> N \<and> p s ! j \<noteq> 0} - {j0 s}"

definition perm_inv :: "nat \<Rightarrow> nat \<Rightarrow> hstate \<Rightarrow> bool" where
  "perm_inv N i s \<longleftrightarrow>
     length (p s) = N + 1 \<and> j0 s \<le> N \<and>
     inj_on ((!) (p s)) (pending N s) \<and> (!) (p s) ` pending N s = {1..i}"

definition chain_ok ::
  "real list list \<Rightarrow> nat \<Rightarrow> hstate \<Rightarrow> (nat \<Rightarrow> nat) \<Rightarrow> bool" where
  "chain_ok a N s0 f \<longleftrightarrow>
     (\<forall>j. 1 \<le> j \<and> j \<le> N \<and> (used s0 ! j \<or> j = j0 s0) \<longrightarrow>
        used s0 ! (way s0 ! j) \<and> way s0 ! j \<le> N \<and> f (way s0 ! j) < f j \<and>
        rc a s0 (p s0 ! (way s0 ! j)) j = 0) \<and>
     (\<forall>j\<le>N. used s0 ! j \<longrightarrow> p s0 ! j \<noteq> 0)"

definition aug_inv ::
  "real list list \<Rightarrow> nat \<Rightarrow> hstate \<Rightarrow> (nat \<Rightarrow> nat) \<Rightarrow> hstate \<Rightarrow> bool" where
  "aug_inv a N s0 f s \<longleftrightarrow>
     u s = u s0 \<and> v s = v s0 \<and> way s = way s0 \<and>
     1 \<le> j0 s \<and> j0 s \<le> N \<and> (used s0 ! j0 s \<or> j0 s = j0 s0) \<and>
     (\<forall>j. f j \<le> f (j0 s) \<longrightarrow> p s ! j = p s0 ! j) \<and>
     (\<forall>j. 1 \<le> j \<and> j \<le> N \<and> j \<noteq> j0 s \<and> p s ! j \<noteq> 0 \<longrightarrow> rc a s0 (p s ! j) j = 0) \<and>
     (\<forall>j. 1 \<le> j \<and> j \<le> N \<and> p s ! j = 0 \<longrightarrow> p s0 ! j = 0)"

definition aug_post ::
  "real list list \<Rightarrow> nat \<Rightarrow> nat \<Rightarrow> hstate \<Rightarrow> hstate \<Rightarrow> bool" where
  "aug_post a N i s0 s' \<longleftrightarrow>
     u s' = u s0 \<and> v s' = v s0 \<and> way s' = way s0 \<and> j0 s' = 0 \<and> perm_inv N i s' \<and>
     (\<forall>j. 1 \<le> j \<and> j \<le> N \<and> p s' ! j \<noteq> 0 \<longrightarrow> rc a s0 (p s' ! j) j = 0) \<and>
     (\<forall>j. 1 \<le> j \<and> j \<le> N \<and> p s' ! j = 0 \<longrightarrow> p s0 ! j = 0)"

definition rows_inv :: "real list list \<Rightarrow> nat \<Rightarrow> nat \<Rightarrow> hstate \<Rightarrow> bool" where
  "rows_inv a N k s \<longleftrightarrow>
     core_inv a N k s \<and> k \<le> N \<and> (\<forall>r. k < r \<and> r \<le> N \<longrightarrow> u s ! r = 0)"

definition small_costs :: "int \<Rightarrow> int \<Rightarrow> (nat \<Rightarrow> nat \<Rightarrow> real) \<Rightarrow> bool" where
  "small_costs n m cost \<longleftrightarrow> (\<forall>i j. int i < n \<and> int j < m \<longrightarrow> \<bar>cost i j\<bar> \<le> BND_d)"

definition cell_cost :: "int \<Rightarrow> int \<Rightarrow> (nat \<Rightarrow> nat \<Rightarrow> real) \<Rightarrow> nat list \<Rightarrow> nat \<Rightarrow> real" where
  "cell_cost n m cost ps j =
     (if 0 < ps ! j \<and> int (ps ! j) \<le> n \<and> int j \<le> m then cost (ps ! j - 1) (j - 1) else 0)"

definition job_entry :: "int \<Rightarrow> nat list \<Rightarrow> nat \<Rightarrow> int" where
  "job_entry n ps j = (if 0 < ps ! (j + 1) \<and> int (ps ! (j + 1)) \<le> n then int (ps ! (j + 1)) - 1 else - 1)"

definition write_step :: "int \<Rightarrow> nat list \<Rightarrow> nat \<Rightarrow> int list \<Rightarrow> int list" where
  "write_step n ps j out =
     (if 0 < ps ! j \<and> int (ps ! j) \<le> n then out[j - 1 := int (ps ! j) - 1] else out)"

definition frame_ok :: "nat \<Rightarrow> hstate \<Rightarrow> bool" where
  "frame_ok N s \<longleftrightarrow>
     length (minv s) = N + 1 \<and> length (way s) = N + 1 \<and> (\<forall>j\<le>N. way s ! j \<le> N) \<and> j0 s \<le> N"

definition match_inv :: "nat \<Rightarrow> nat \<Rightarrow> hstate \<Rightarrow> bool" where
  "match_inv N k s \<longleftrightarrow>
     length (p s) = N + 1 \<and> length (way s) = N + 1 \<and> (\<forall>j\<le>N. way s ! j \<le> N) \<and>
     inj_on ((!) (p s)) (matched N s) \<and> (!) (p s) ` matched N s = {1..k}"

definition demo_cost :: "nat \<Rightarrow> nat \<Rightarrow> real" where
  "demo_cost = matrix [[9.0, 2.5, 7.1, 8.3], [6.2, 4.8, 3.0, 7.9], [5.0, 8.1, 1.5, 8.7]]"

definition nonneg_costs :: "int \<Rightarrow> int \<Rightarrow> (nat \<Rightarrow> nat \<Rightarrow> real) \<Rightarrow> bool" where
  "nonneg_costs n m cost \<longleftrightarrow> (\<forall>i j. int i < n \<and> int j < m \<longrightarrow> 0 \<le> cost i j)"

definition integer_costs :: "int \<Rightarrow> int \<Rightarrow> (nat \<Rightarrow> nat \<Rightarrow> real) \<Rightarrow> bool" where
  "integer_costs n m cost \<longleftrightarrow>
     (\<forall>i j. int i < n \<and> int j < m \<longrightarrow> cost i j \<in> \<int> \<and> \<bar>cost i j\<bar> \<le> 1000000)"

definition column_cost :: "nat \<Rightarrow> nat \<Rightarrow> real" where
  "column_cost = matrix [[1], [2]]"

definition whole_cost :: "nat \<Rightarrow> nat \<Rightarrow> real" where
  "whole_cost = matrix [[9, 2, 7, 8], [6, 4, 3, 7], [5, 8, 1, 8]]"

definition huge_cost :: "nat \<Rightarrow> nat \<Rightarrow> real" where
  "huge_cost = matrix [[0, 0], [1000000000000000000, 2000000000000000000]]"

definition square_cost :: "nat \<Rightarrow> nat \<Rightarrow> real" where
  "square_cost = matrix [[4, 1], [2, 3]]"

definition real_sum :: "int \<Rightarrow> int \<Rightarrow> (nat \<Rightarrow> nat \<Rightarrow> real) \<Rightarrow> nat \<Rightarrow> (nat \<Rightarrow> nat) \<Rightarrow> real" where
  "real_sum n m cost N q =
     (\<Sum>j\<in>{1..N}. if 0 < q j \<and> int (q j) \<le> n \<and> int j \<le> m then cost (q j - 1) (j - 1) else 0)"

definition extend_perm :: "nat \<Rightarrow> (nat \<Rightarrow> nat) \<Rightarrow> nat \<Rightarrow> nat" where
  "extend_perm k f r = (if r \<le> k then f (r - 1) + 1 else r)"

definition tie_cost :: "nat \<Rightarrow> nat \<Rightarrow> real" where
  "tie_cost = matrix [[1, 1], [1, 1]]"

definition permuted :: "(nat \<Rightarrow> nat) \<Rightarrow> (nat \<Rightarrow> nat) \<Rightarrow> (nat \<Rightarrow> nat \<Rightarrow> real) \<Rightarrow> nat \<Rightarrow> nat \<Rightarrow> real" where
  "permuted \<sigma> \<tau> cost i j = cost (\<sigma> i) (\<tau> j)"

definition assigned_cost :: "(nat \<Rightarrow> nat \<Rightarrow> real) \<Rightarrow> int list \<Rightarrow> real" where
  "assigned_cost cost out =
     (\<Sum>j<length out. if out ! j = - 1 then 0 else cost (nat (out ! j)) j)"

definition swap_rows :: "nat \<Rightarrow> nat" where
  "swap_rows i = 1 - i"

definition matching :: "int \<Rightarrow> int \<Rightarrow> int list \<Rightarrow> bool" where
  "matching n m A \<longleftrightarrow> length A = nat m \<and>
     (\<forall>j<nat m. A ! j = - 1 \<or> (0 \<le> A ! j \<and> A ! j < n)) \<and>
     (\<forall>j<nat m. \<forall>k<nat m. A ! j = A ! k \<and> A ! j \<noteq> - 1 \<longrightarrow> j = k) \<and>
     card {j. j < nat m \<and> A ! j \<noteq> - 1} = nat (min n m)"

definition transported :: "int \<Rightarrow> (nat \<Rightarrow> nat) \<Rightarrow> (nat \<Rightarrow> nat) \<Rightarrow> int list \<Rightarrow> int list \<Rightarrow> bool" where
  "transported m \<sigma> \<tau> out1 out2 \<longleftrightarrow>
     (\<forall>j<nat m. if out2 ! j = - 1 then out1 ! (\<tau> j) = - 1
                 else out1 ! (\<tau> j) = int (\<sigma> (nat (out2 ! j))))"

section \<open>Verification\<close>

lemma relax_step_used:
  "used s ! j \<Longrightarrow> relax_step a i0 j (s, d, j1) = (s, d, j1)"
  by (simp add: relax_step_def)

lemma relax_step_unused:
  "\<not> used s ! j \<Longrightarrow> relax_step a i0 j (s, d, j1) =
     (let s1 = (if rc a s i0 j < minv s ! j
                then s\<lparr>way := (way s)[j := j0 s], minv := (minv s)[j := rc a s i0 j]\<rparr> else s)
      in (s1, if minv s1 ! j < d then minv s1 ! j else d, if minv s1 ! j < d then j else j1))"
  by (simp add: relax_step_def Let_def rc_def)

lemma relax_post_step:
  assumes P: "relax_post a i0 s k s' d j1"
    and len: "Suc k < length (minv s)" "Suc k < length (way s)"
  shows "case relax_step a i0 (Suc k) (s', d, j1) of
           (s'', d', j1') \<Rightarrow> relax_post a i0 s (Suc k) s'' d' j1'"
proof -
  have fr: "u s' = u s" "v s' = v s" "p s' = p s" "used s' = used s" "j0 s' = j0 s"
    "length (way s') = length (way s)" "length (minv s') = length (minv s)"
    using P unfolding relax_post_def by blast+
  have mv: "minv s' ! j =
        (if 1 \<le> j \<and> j \<le> k \<and> \<not> used s ! j \<and> rc a s i0 j < minv s ! j
         then rc a s i0 j else minv s ! j)" for j
    using P unfolding relax_post_def by blast
  have wy: "way s' ! j =
        (if 1 \<le> j \<and> j \<le> k \<and> \<not> used s ! j \<and> rc a s i0 j < minv s ! j
         then j0 s else way s ! j)" for j
    using P unfolding relax_post_def by blast
  have mk: "minv s' ! Suc k = minv s ! Suc k" "way s' ! Suc k = way s ! Suc k"
    by (simp_all add: mv wy)
  have rceq: "rc a s' i0 (Suc k) = rc a s i0 (Suc k)" by (simp add: rc_def fr)
  have dle: "d \<le> INF_d" using P unfolding relax_post_def by blast
  have dmin: "d \<le> minv s' ! j" if "1 \<le> j" "j \<le> k" "\<not> used s ! j" for j
    using P that unfolding relax_post_def by blast
  have j1p0: "if j1 = 0 then d = INF_d
      else 1 \<le> j1 \<and> j1 \<le> k \<and> \<not> used s ! j1 \<and> d = minv s' ! j1 \<and> d < INF_d"
    using P unfolding relax_post_def by blast
  have j1p: "j1 = 0 \<Longrightarrow> d = INF_d"
    "j1 \<noteq> 0 \<Longrightarrow> 1 \<le> j1 \<and> j1 \<le> k \<and> \<not> used s ! j1 \<and> d = minv s' ! j1 \<and> d < INF_d"
    using j1p0 by (simp_all split: if_splits)
  show ?thesis
  proof (cases "used s ! Suc k")
    case True
    then have st: "relax_step a i0 (Suc k) (s', d, j1) = (s', d, j1)"
      by (simp add: relax_step_used fr)
    have mv1: "minv s' ! j =
        (if 1 \<le> j \<and> j \<le> Suc k \<and> \<not> used s ! j \<and> rc a s i0 j < minv s ! j
         then rc a s i0 j else minv s ! j)" for j
      using True by (cases "j = Suc k") (simp_all add: mv le_Suc_eq)
    have wy1: "way s' ! j =
        (if 1 \<le> j \<and> j \<le> Suc k \<and> \<not> used s ! j \<and> rc a s i0 j < minv s ! j
         then j0 s else way s ! j)" for j
      using True by (cases "j = Suc k") (simp_all add: wy le_Suc_eq)
    have dmin1: "d \<le> minv s' ! j" if "1 \<le> j" "j \<le> Suc k" "\<not> used s ! j" for j
    proof -
      have "j \<noteq> Suc k" using that True by auto
      then have "j \<le> k" using that by simp
      then show ?thesis using dmin that by simp
    qed
    have j1': "if j1 = 0 then d = INF_d
      else 1 \<le> j1 \<and> j1 \<le> Suc k \<and> \<not> used s ! j1 \<and> d = minv s' ! j1 \<and> d < INF_d"
      using j1p by (cases "j1 = 0") simp_all
    have "relax_post a i0 s (Suc k) s' d j1"
      unfolding relax_post_def
      using fr mv1 wy1 dle dmin1 j1' by blast
    then show ?thesis by (simp add: st)
  next
    case False
    define s1 where "s1 = (if rc a s i0 (Suc k) < minv s ! Suc k
                then s'\<lparr>way := (way s')[Suc k := j0 s], minv := (minv s')[Suc k := rc a s i0 (Suc k)]\<rparr> else s')"
    define d' where "d' = (if minv s1 ! Suc k < d then minv s1 ! Suc k else d)"
    define j1' where "j1' = (if minv s1 ! Suc k < d then Suc k else j1)"
    have st: "relax_step a i0 (Suc k) (s', d, j1) = (s1, d', j1')"
      using False by (simp add: relax_step_unused fr rceq mk s1_def d'_def j1'_def Let_def)
    have fr1: "u s1 = u s" "v s1 = v s" "p s1 = p s" "used s1 = used s" "j0 s1 = j0 s"
      "length (way s1) = length (way s)" "length (minv s1) = length (minv s)"
      by (simp_all add: s1_def fr)
    have mv1: "minv s1 ! j =
          (if 1 \<le> j \<and> j \<le> Suc k \<and> \<not> used s ! j \<and> rc a s i0 j < minv s ! j
           then rc a s i0 j else minv s ! j)" for j
    proof (cases "j = Suc k")
      case True
      then show ?thesis using False len by (simp add: s1_def fr mk)
    next
      case F: False
      then have "minv s1 ! j = minv s' ! j" by (simp add: s1_def)
      then show ?thesis using F by (simp add: mv le_Suc_eq)
    qed
    have wy1: "way s1 ! j =
          (if 1 \<le> j \<and> j \<le> Suc k \<and> \<not> used s ! j \<and> rc a s i0 j < minv s ! j
           then j0 s else way s ! j)" for j
    proof (cases "j = Suc k")
      case True
      then show ?thesis using False len by (simp add: s1_def fr mk)
    next
      case F: False
      then have "way s1 ! j = way s' ! j" by (simp add: s1_def)
      then show ?thesis using F by (simp add: wy le_Suc_eq)
    qed
    have same: "j \<le> k \<Longrightarrow> minv s1 ! j = minv s' ! j" for j
      by (simp add: s1_def)
    have d'le: "d' \<le> INF_d" using dle by (simp add: d'_def)
    have d'd: "d' \<le> d" by (simp add: d'_def)
    have d'min: "d' \<le> minv s1 ! j" if "1 \<le> j" "j \<le> Suc k" "\<not> used s ! j" for j
    proof (cases "j = Suc k")
      case True
      then show ?thesis by (simp add: d'_def)
    next
      case F: False
      then have "j \<le> k" using that by simp
      then show ?thesis using dmin[of j] that same[of j] d'd by simp
    qed
    have j1': "if j1' = 0 then d' = INF_d
        else 1 \<le> j1' \<and> j1' \<le> Suc k \<and> \<not> used s ! j1' \<and> d' = minv s1 ! j1' \<and> d' < INF_d"
    proof (cases "minv s1 ! Suc k < d")
      case True
      then show ?thesis using False dle by (simp add: d'_def j1'_def)
    next
      case F: False
      then have e: "d' = d" "j1' = j1" by (simp_all add: d'_def j1'_def)
      show ?thesis
      proof (cases "j1 = 0")
        case True
        then show ?thesis using j1p e by simp
      next
        case F2: False
        then show ?thesis using j1p(2)[OF F2] e same[of j1] by simp
      qed
    qed
    have "relax_post a i0 s (Suc k) s1 d' j1'"
      unfolding relax_post_def
      using fr1 mv1 wy1 d'le d'min j1' by blast
    then show ?thesis by (simp add: st)
  qed
qed

lemma relax_fold:
  assumes "k < length (minv s)" "k < length (way s)"
  shows "case fold (relax_step a i0) [1..<Suc k] (s, INF_d, 0) of
           (s', d, j1) \<Rightarrow> relax_post a i0 s k s' d j1"
  using assms
proof (induction k)
  case 0
  show ?case by (simp add: relax_post_def)
next
  case (Suc k)
  obtain s' d j1 where f: "fold (relax_step a i0) [1..<Suc k] (s, INF_d, 0) = (s', d, j1)"
    by (metis prod_cases3)
  with Suc have P: "relax_post a i0 s k s' d j1" by simp
  have e: "[1..<Suc (Suc k)] = [1..<Suc k] @ [Suc k]" by simp
  show ?case
    unfolding e fold_append comp_def f
    using relax_post_step[OF P Suc.prems] by simp
qed

lemma relax_props:
  assumes "length (minv s) = N + 1" "length (way s) = N + 1"
    and "relax a N i0 s = (s', d, j1)"
  shows "relax_post a i0 s N s' d j1"
  using relax_fold[of N s a i0] assms by (simp add: relax_def)

lemma update_fold:
  assumes "k \<le> length (v s)" "k \<le> length (minv s)"
    and "\<forall>j<k. used s ! j \<longrightarrow> p s ! j < length (u s)"
    and "\<forall>j<k. \<forall>j'<k. used s ! j \<and> used s ! j' \<and> p s ! j = p s ! j' \<longrightarrow> j = j'"
  shows "update_post d s k (fold (update_step d) [0..<k] s)"
  using assms
proof (induction k)
  case 0
  show ?case by (simp add: update_post_def)
next
  case (Suc k)
  define s' where "s' = fold (update_step d) [0..<k] s"
  have P: "update_post d s k s'"
    unfolding s'_def using Suc by simp
  have fr: "p s' = p s" "way s' = way s" "used s' = used s" "j0 s' = j0 s"
    "length (u s') = length (u s)" "length (v s') = length (v s)"
    "length (minv s') = length (minv s)"
    using P unfolding update_post_def by blast+
  have vv: "v s' ! j = (if j < k \<and> used s ! j then v s ! j - d else v s ! j)" for j
    using P unfolding update_post_def by blast
  have mm: "minv s' ! j = (if j < k \<and> \<not> used s ! j then minv s ! j - d else minv s ! j)" for j
    using P unfolding update_post_def by blast
  have uu: "u s' ! r = (if \<exists>j<k. used s ! j \<and> p s ! j = r then u s ! r + d else u s ! r)" for r
    using P unfolding update_post_def by blast
  define s1 where "s1 = update_step d k s'"
  have e: "fold (update_step d) [0..<Suc k] s = s1"
    by (simp add: s1_def s'_def)
  have fr1: "p s1 = p s" "way s1 = way s" "used s1 = used s" "j0 s1 = j0 s"
    "length (u s1) = length (u s)" "length (v s1) = length (v s)"
    "length (minv s1) = length (minv s)"
    by (simp_all add: s1_def update_step_def fr)
  have vv1: "v s1 ! j = (if j < Suc k \<and> used s ! j then v s ! j - d else v s ! j)" for j
  proof (cases "j = k")
    case True
    then show ?thesis using Suc.prems(1) by (simp add: s1_def update_step_def fr vv)
  next
    case False
    then have "v s1 ! j = v s' ! j" by (simp add: s1_def update_step_def)
    then show ?thesis using False by (simp add: vv less_Suc_eq)
  qed
  have mm1: "minv s1 ! j = (if j < Suc k \<and> \<not> used s ! j then minv s ! j - d else minv s ! j)" for j
  proof (cases "j = k")
    case True
    then show ?thesis using Suc.prems(2) by (simp add: s1_def update_step_def fr mm)
  next
    case False
    then have "minv s1 ! j = minv s' ! j" by (simp add: s1_def update_step_def)
    then show ?thesis using False by (simp add: mm less_Suc_eq)
  qed
  have uu1: "u s1 ! r = (if \<exists>j<Suc k. used s ! j \<and> p s ! j = r then u s ! r + d else u s ! r)" for r
  proof (cases "used s ! k")
    case True
    have fresh: "\<not> (\<exists>j<k. used s ! j \<and> p s ! j = p s ! k)"
    proof
      assume "\<exists>j<k. used s ! j \<and> p s ! j = p s ! k"
      then obtain j where j: "j < k" "used s ! j" "p s ! j = p s ! k" by blast
      have "j < Suc k" "k < Suc k" using j by simp_all
      with Suc.prems(4) j True have "j = k" by blast
      with j show False by simp
    qed
    have inr: "p s ! k < length (u s)" using Suc.prems(3) True by simp
    have u1: "u s1 = (u s')[p s ! k := u s' ! (p s ! k) + d]"
      using True by (simp add: s1_def update_step_def fr)
    show ?thesis
    proof (cases "r = p s ! k")
      case T: True
      have "u s1 ! r = u s' ! (p s ! k) + d" using inr T by (simp add: u1 fr)
      also have "u s' ! (p s ! k) = u s ! (p s ! k)"
        unfolding uu by (rule if_not_P) (rule fresh)
      finally have "u s1 ! r = u s ! r + d" using T by simp
      moreover have "\<exists>j<Suc k. used s ! j \<and> p s ! j = r" using T True by blast
      ultimately show ?thesis by (simp only: if_True)
    next
      case F: False
      have "u s1 ! r = u s' ! r" using F by (simp add: u1)
      moreover have "(\<exists>j<Suc k. used s ! j \<and> p s ! j = r) \<longleftrightarrow> (\<exists>j<k. used s ! j \<and> p s ! j = r)"
        using F by (auto simp: less_Suc_eq)
      ultimately show ?thesis by (simp add: uu)
    qed
  next
    case False
    have "u s1 = u s'" using False by (simp add: s1_def update_step_def fr)
    moreover have "(\<exists>j<Suc k. used s ! j \<and> p s ! j = r) \<longleftrightarrow> (\<exists>j<k. used s ! j \<and> p s ! j = r)"
      using False by (auto simp: less_Suc_eq)
    ultimately show ?thesis by (simp add: uu)
  qed
  have "update_post d s (Suc k) s1"
    unfolding update_post_def using fr1 vv1 mm1 uu1 by blast
  then show ?case unfolding e .
qed

lemma update_frame:
  "p (update d N s) = p s \<and> way (update d N s) = way s \<and> used (update d N s) = used s \<and>
   j0 (update d N s) = j0 s \<and> length (u (update d N s)) = length (u s) \<and>
   length (v (update d N s)) = length (v s) \<and> length (minv (update d N s)) = length (minv s)"
proof -
  have "p (fold (update_step d) ks s) = p s \<and> way (fold (update_step d) ks s) = way s \<and>
     used (fold (update_step d) ks s) = used s \<and> j0 (fold (update_step d) ks s) = j0 s \<and>
     length (u (fold (update_step d) ks s)) = length (u s) \<and>
     length (v (fold (update_step d) ks s)) = length (v s) \<and>
     length (minv (fold (update_step d) ks s)) = length (minv s)" for ks
    by (induction ks arbitrary: s) (simp_all add: update_step_def)
  then show ?thesis unfolding update_def by blast
qed

lemma search_round_post:
  assumes len: "length (u s) = N + 1" "length (v s) = N + 1" "length (p s) = N + 1"
      "length (way s) = N + 1" "length (minv s) = N + 1" "length (used s) = N + 1"
    and j0: "j0 s \<le> N"
    and pb: "\<forall>j\<le>N. (j = j0 s \<or> used s ! j) \<longrightarrow> p s ! j \<le> N"
    and inj: "\<forall>j\<le>N. \<forall>j'\<le>N. (j = j0 s \<or> used s ! j) \<and> (j' = j0 s \<or> used s ! j') \<and>
                p s ! j = p s ! j' \<longrightarrow> j = j'"
  shows "\<exists>d. round_post a N s d (search_round a N s)"
proof -
  define s1 where "s1 = s\<lparr>used := (used s)[j0 s := True]\<rparr>"
  define i0 where "i0 = p s ! j0 s"
  obtain s2 d j1 where r: "relax a N i0 s1 = (s2, d, j1)" by (metis prod_cases3)
  define s3 where "s3 = update d N s2"
  have i0s1: "p s1 ! j0 s1 = i0" by (simp add: s1_def i0_def)
  have "search_round a N s =
      (case relax a N (p s1 ! j0 s1) s1 of (s2, delta, j1) \<Rightarrow> (update delta N s2)\<lparr>j0 := j1\<rparr>)"
    by (simp add: search_round_def Let_def s1_def)
  then have sr: "search_round a N s = s3\<lparr>j0 := j1\<rparr>"
    by (simp add: i0s1 r s3_def)
  have u1: "used s1 ! j = (j = j0 s \<or> used s ! j)" if "j \<le> N" for j
    using that len j0 by (simp add: s1_def nth_list_update)
  have rcs1: "rc a s1 r j = rc a s r j" for r j by (simp add: rc_def s1_def)
  have ms1: "minv s1 = minv s" "way s1 = way s" "j0 s1 = j0 s" by (simp_all add: s1_def)
  have RP: "relax_post a i0 s1 N s2 d j1"
    using relax_props[OF _ _ r] len by (simp add: s1_def)
  have fr2: "u s2 = u s" "v s2 = v s" "p s2 = p s" "used s2 = used s1" "j0 s2 = j0 s"
    "length (way s2) = length (way s)" "length (minv s2) = length (minv s)"
    using RP unfolding relax_post_def by (simp_all add: s1_def)
  have mv2: "minv s2 ! j =
        (if 1 \<le> j \<and> j \<le> N \<and> \<not> used s1 ! j \<and> rc a s i0 j < minv s ! j
         then rc a s i0 j else minv s ! j)" for j
  proof -
    have "minv s2 ! j =
        (if 1 \<le> j \<and> j \<le> N \<and> \<not> used s1 ! j \<and> rc a s1 i0 j < minv s1 ! j
         then rc a s1 i0 j else minv s1 ! j)"
      using RP unfolding relax_post_def by blast
    then show ?thesis unfolding rcs1 ms1 .
  qed
  have wy2: "way s2 ! j =
        (if 1 \<le> j \<and> j \<le> N \<and> \<not> used s1 ! j \<and> rc a s i0 j < minv s ! j
         then j0 s else way s ! j)" for j
  proof -
    have "way s2 ! j =
        (if 1 \<le> j \<and> j \<le> N \<and> \<not> used s1 ! j \<and> rc a s1 i0 j < minv s1 ! j
         then j0 s1 else way s1 ! j)"
      using RP unfolding relax_post_def by blast
    then show ?thesis unfolding rcs1 ms1 .
  qed
  have dle: "d \<le> INF_d" using RP unfolding relax_post_def by blast
  have dmin: "d \<le> minv s2 ! j" if "1 \<le> j" "j \<le> N" "\<not> used s1 ! j" for j
    using RP that unfolding relax_post_def by blast
  have j1p0: "if j1 = 0 then d = INF_d
      else 1 \<le> j1 \<and> j1 \<le> N \<and> \<not> used s1 ! j1 \<and> d = minv s2 ! j1 \<and> d < INF_d"
    using RP unfolding relax_post_def by blast
  have UP: "update_post d s2 (N + 1) s3"
    unfolding s3_def update_def
  proof (rule update_fold)
    show "N + 1 \<le> length (v s2)" "N + 1 \<le> length (minv s2)" using len fr2 by simp_all
    show "\<forall>j<N + 1. used s2 ! j \<longrightarrow> p s2 ! j < length (u s2)"
      using pb u1 len by (simp add: fr2 less_Suc_eq_le)
    show "\<forall>j<N + 1. \<forall>j'<N + 1. used s2 ! j \<and> used s2 ! j' \<and> p s2 ! j = p s2 ! j' \<longrightarrow> j = j'"
      using inj u1 by (simp add: fr2 less_Suc_eq_le)
  qed
  have fr3: "p s3 = p s" "way s3 = way s2" "used s3 = used s1" "j0 s3 = j0 s"
    "length (u s3) = length (u s)" "length (v s3) = length (v s)"
    "length (minv s3) = length (minv s)"
    using UP unfolding update_post_def by (simp_all add: fr2)
  have v3: "v s3 ! j = (if j < N + 1 \<and> used s1 ! j then v s ! j - d else v s ! j)" for j
  proof -
    have "v s3 ! j = (if j < N + 1 \<and> used s2 ! j then v s2 ! j - d else v s2 ! j)"
      using UP unfolding update_post_def by blast
    then show ?thesis unfolding fr2 .
  qed
  have m3: "minv s3 ! j = (if j < N + 1 \<and> \<not> used s1 ! j then minv s2 ! j - d else minv s2 ! j)" for j
  proof -
    have "minv s3 ! j = (if j < N + 1 \<and> \<not> used s2 ! j then minv s2 ! j - d else minv s2 ! j)"
      using UP unfolding update_post_def by blast
    then show ?thesis unfolding fr2 .
  qed
  have u3: "u s3 ! r = (if \<exists>j<N + 1. used s1 ! j \<and> p s ! j = r then u s ! r + d else u s ! r)" for r
  proof -
    have "u s3 ! r = (if \<exists>j<N + 1. used s2 ! j \<and> p s2 ! j = r then u s2 ! r + d else u s2 ! r)"
      using UP unfolding update_post_def by blast
    then show ?thesis unfolding fr2 .
  qed
  let ?s' = "s3\<lparr>j0 := j1\<rparr>"
  have c1: "p ?s' = p s" "length (u ?s') = length (u s)" "length (v ?s') = length (v s)"
     "length (way ?s') = length (way s)" "length (minv ?s') = length (minv s)"
     "length (used ?s') = length (used s)"
    by (simp_all add: fr3 fr2 s1_def)
  have c2: "\<forall>j\<le>N. used ?s' ! j = (j = j0 s \<or> used s ! j)"
    using u1 by (simp add: fr3)
  have c3: "\<forall>j\<le>N. v ?s' ! j = (if used ?s' ! j then v s ! j - d else v s ! j)"
    by (simp add: v3 fr3 less_Suc_eq_le)
  have c4: "\<forall>r. u ?s' ! r = (if used_row N ?s' r then u s ! r + d else u s ! r)"
    by (simp add: u3 fr3 less_Suc_eq_le used_row_def)
  have c5: "\<forall>j\<le>N. 1 \<le> j \<and> \<not> used ?s' ! j \<longrightarrow>
        minv ?s' ! j = min (minv s ! j) (rc a s (p s ! j0 s) j) - d \<and>
        way ?s' ! j = (if rc a s (p s ! j0 s) j < minv s ! j then j0 s else way s ! j)"
    by (auto simp: m3 mv2 wy2 fr3 i0_def min_def less_Suc_eq_le)
  have c6: "\<forall>j\<le>N. used ?s' ! j \<longrightarrow> way ?s' ! j = way s ! j"
    by (simp add: fr3 wy2)
  have c7: "\<forall>j\<le>N. 1 \<le> j \<and> \<not> used ?s' ! j \<longrightarrow> 0 \<le> minv ?s' ! j"
  proof (intro allI impI)
    fix j assume "j \<le> N" "1 \<le> j \<and> \<not> used ?s' ! j"
    then have "d \<le> minv s2 ! j" "minv s3 ! j = minv s2 ! j - d"
      using dmin[of j] by (simp_all add: fr3 m3)
    then show "0 \<le> minv ?s' ! j" by simp
  qed
  have c8: "j0 ?s' \<le> N" using j1p0 by (simp split: if_splits)
  have c9: "if j0 ?s' = 0 then d = INF_d
      else \<not> used ?s' ! j0 ?s' \<and> minv ?s' ! j0 ?s' = 0 \<and> d < INF_d"
  proof (cases "j1 = 0")
    case True
    then show ?thesis using j1p0 by simp
  next
    case False
    then have h: "1 \<le> j1" "j1 \<le> N" "\<not> used s1 ! j1" "d = minv s2 ! j1" "d < INF_d"
      using j1p0 by simp_all
    then have "minv s3 ! j1 = 0" by (simp add: m3)
    then show ?thesis using False h by (simp add: fr3)
  qed
  have "round_post a N s d ?s'"
    unfolding round_post_def
    using c1 c2 c3 c4 c5 c6 c7 c8 c9 dle by blast
  then show ?thesis unfolding sr by blast
qed

lemma matched_finite: "finite (matched N s)"
  by (simp add: matched_def)

lemma matched_sub: "matched N s \<subseteq> {1..N}"
  by (auto simp: matched_def)

lemma core_card: "core_inv a N k s \<Longrightarrow> card (matched N s) = k"
proof -
  assume c: "core_inv a N k s"
  then have "inj_on ((!) (p s)) (matched N s)" "(!) (p s) ` matched N s = {1..k}"
    unfolding core_inv_def by blast+
  then have "card (matched N s) = card {1..k}" by (metis card_image)
  then show ?thesis by simp
qed

lemma core_unmatched:
  assumes "core_inv a N k s" "k < N"
  shows "\<exists>j. 1 \<le> j \<and> j \<le> N \<and> p s ! j = 0"
proof (rule ccontr)
  assume "\<not> ?thesis"
  then have "{1..N} \<subseteq> matched N s" by (auto simp: matched_def)
  then have "card {1..N} \<le> card (matched N s)"
    by (intro card_mono matched_finite)
  then show False using core_card[OF assms(1)] assms(2) by simp
qed

lemma core_p_range:
  assumes "core_inv a N k s" "1 \<le> j" "j \<le> N"
  shows "p s ! j \<le> k" "p s ! j \<noteq> 0 \<Longrightarrow> p s ! j \<in> {1..k}"
proof -
  have im: "(!) (p s) ` matched N s = {1..k}" using assms(1) unfolding core_inv_def by blast
  show "p s ! j \<in> {1..k}" if "p s ! j \<noteq> 0"
  proof -
    have "j \<in> matched N s" using that assms by (simp add: matched_def)
    then have "p s ! j \<in> (!) (p s) ` matched N s" by blast
    then show ?thesis using im by simp
  qed
  then show "p s ! j \<le> k" by (cases "p s ! j = 0") auto
qed

lemma core_row_col:
  assumes "core_inv a N k s" "1 \<le> r" "r \<le> k"
  shows "\<exists>j. 1 \<le> j \<and> j \<le> N \<and> p s ! j = r"
proof -
  have im: "(!) (p s) ` matched N s = {1..k}" using assms(1) unfolding core_inv_def by blast
  have "r \<in> (!) (p s) ` matched N s" using assms im by simp
  then show ?thesis by (auto simp: matched_def)
qed

lemma core_inj:
  assumes "core_inv a N k s" "1 \<le> j" "j \<le> N" "1 \<le> j'" "j' \<le> N"
    "p s ! j = p s ! j'" "p s ! j \<noteq> 0"
  shows "j = j'"
proof -
  have "inj_on ((!) (p s)) (matched N s)" using assms(1) unfolding core_inv_def by blast
  moreover have "j \<in> matched N s" "j' \<in> matched N s" using assms by (simp_all add: matched_def)
  ultimately show ?thesis using assms(6) by (auto dest: inj_onD)
qed

lemma pot_bounds:
  assumes c: "core_inv a N k s" and b: "bounded a N" and k: "k < N"
  shows "\<forall>r. 1 \<le> r \<and> r \<le> k \<longrightarrow> - BND_d \<le> u s ! r \<and> u s ! r \<le> BND_d"
    and "\<forall>j. 1 \<le> j \<and> j \<le> N \<longrightarrow> - 2 * BND_d \<le> v s ! j \<and> v s ! j \<le> 0"
proof -
  obtain js where js: "1 \<le> js" "js \<le> N" "p s ! js = 0"
    using core_unmatched[OF c k] by blast
  have v0: "v s ! js = 0" using c js unfolding core_inv_def by simp
  have vle: "v s ! j \<le> 0" if "1 \<le> j" "j \<le> N" for j
    using c that unfolding core_inv_def by simp
  have feas: "0 \<le> rc a s r j" if "1 \<le> r" "r \<le> k" "1 \<le> j" "j \<le> N" for r j
    using c that unfolding core_inv_def by simp
  have tight: "rc a s (p s ! j) j = 0" if "1 \<le> j" "j \<le> N" "p s ! j \<noteq> 0" for j
    using c that unfolding core_inv_def matched_def by simp
  have ab: "\<bar>a ! r ! j\<bar> \<le> BND_d" if "1 \<le> r" "r \<le> N" "1 \<le> j" "j \<le> N" for r j
    using b that unfolding bounded_def by blast
  have ub: "- BND_d \<le> u s ! r \<and> u s ! r \<le> BND_d" if r: "1 \<le> r" "r \<le> k" for r
  proof -
    have rN: "r \<le> N" using r k by simp
    have "0 \<le> rc a s r js" using feas r js by simp
    then have 1: "u s ! r \<le> a ! r ! js" by (simp add: rc_def v0)
    obtain j where j: "1 \<le> j" "j \<le> N" "p s ! j = r" using core_row_col[OF c r] by blast
    have "rc a s r j = 0" using tight[of j] j r by simp
    then have 2: "u s ! r = a ! r ! j - v s ! j" by (simp add: rc_def)
    show ?thesis using 1 2 ab[OF r(1) rN js(1,2)] ab[OF r(1) rN j(1,2)] vle[OF j(1,2)]
      by linarith
  qed
  show "\<forall>r. 1 \<le> r \<and> r \<le> k \<longrightarrow> - BND_d \<le> u s ! r \<and> u s ! r \<le> BND_d"
    using ub by blast
  show "\<forall>j. 1 \<le> j \<and> j \<le> N \<longrightarrow> - 2 * BND_d \<le> v s ! j \<and> v s ! j \<le> 0"
  proof (intro allI impI)
    fix j assume j: "1 \<le> j \<and> j \<le> N"
    show "- 2 * BND_d \<le> v s ! j \<and> v s ! j \<le> 0"
    proof (cases "p s ! j = 0")
      case True
      then have "v s ! j = 0" using c j unfolding core_inv_def by simp
      then show ?thesis by (simp add: BND_d_def)
    next
      case False
      then have pr: "1 \<le> p s ! j" "p s ! j \<le> k" using core_p_range(2)[OF c _ _ False] j by simp_all
      have "rc a s (p s ! j) j = 0" using tight False j by simp
      then have "v s ! j = a ! (p s ! j) ! j - u s ! (p s ! j)" by (simp add: rc_def)
      moreover have "\<bar>a ! (p s ! j) ! j\<bar> \<le> BND_d" using ab pr j k by simp
      moreover have "v s ! j \<le> 0" using vle j by simp
      ultimately show ?thesis using ub[OF pr] by linarith
    qed
  qed
qed

lemma round_rc:
  assumes rp: "round_post a N s d s'"
    and j: "j \<le> N"
  shows "rc a s' r j = rc a s r j - (if used_row N s' r then d else 0)
           + (if used s' ! j then d else 0)"
proof -
  have v': "v s' ! j = (if used s' ! j then v s ! j - d else v s ! j)"
    using rp j unfolding round_post_def by blast
  have u': "u s' ! r = (if used_row N s' r then u s ! r + d else u s ! r)"
    using rp unfolding round_post_def by blast
  show ?thesis unfolding rc_def v' u' by simp
qed

lemma used_rowI: "j \<le> N \<Longrightarrow> used s ! j \<Longrightarrow> p s ! j = r \<Longrightarrow> used_row N s r"
  unfolding used_row_def by blast

lemma used_rowE:
  assumes "used_row N s r"
  obtains j where "j \<le> N" "used s ! j" "p s ! j = r"
  using assms unfolding used_row_def by blast

lemma core_round:
  assumes c: "core_inv a N k s"
    and rp: "round_post a N s d s'"
    and p0: "p s ! 0 = k + 1"
    and um: "\<forall>j\<le>N. used s' ! j \<longrightarrow> j = 0 \<or> p s ! j \<noteq> 0"
    and C1: "(\<exists>j. 1 \<le> j \<and> j \<le> N \<and> used s' ! j) \<longrightarrow> 0 \<le> d"
    and C2: "\<forall>j'\<le>N. used s' ! j' \<longrightarrow> (\<forall>j. 1 \<le> j \<and> j \<le> N \<and> \<not> used s' ! j \<longrightarrow> d \<le> rc a s (p s ! j') j)"
  shows "core_inv a N k s'"
proof -
  have len: "length (u s) = N + 1" "length (v s) = N + 1" "length (p s) = N + 1"
     "length (way s) = N + 1"
    using c unfolding core_inv_def by blast+
  have ps: "p s' = p s" using rp unfolding round_post_def by blast
  have len': "length (u s') = N + 1" "length (v s') = N + 1" "length (p s') = N + 1"
     "length (way s') = N + 1"
    using rp len unfolding round_post_def by simp_all
  have m: "matched N s' = matched N s" by (simp add: matched_def ps)
  have rceq: "rc a s' r j = rc a s r j - (if used_row N s' r then d else 0)
           + (if used s' ! j then d else 0)" if "j \<le> N" for r j
    using round_rc[OF rp that] .
  have tight: "rc a s' (p s ! j) j = 0" if j: "j \<in> matched N s" for j
  proof -
    have j': "1 \<le> j" "j \<le> N" "p s ! j \<noteq> 0" using j by (simp_all add: matched_def)
    have t: "rc a s (p s ! j) j = 0" using c j unfolding core_inv_def by blast
    have pr: "p s ! j \<le> k" using core_p_range(1)[OF c j'(1,2)] .
    have "used_row N s' (p s ! j) \<longleftrightarrow> used s' ! j"
    proof
      assume "used_row N s' (p s ! j)"
      then obtain j2 where j2: "j2 \<le> N" "used s' ! j2" "p s ! j2 = p s ! j"
        unfolding used_row_def ps by blast
      have "j2 \<noteq> 0"
      proof
        assume "j2 = 0"
        with j2 p0 pr show False by simp
      qed
      then have "j2 = j" using core_inj[OF c _ j2(1) j'(1,2) j2(3)] j' j2 by simp
      then show "used s' ! j" using j2 by simp
    next
      assume "used s' ! j"
      then show "used_row N s' (p s ! j)" using j' unfolding used_row_def ps by blast
    qed
    then show ?thesis using rceq[OF j'(2), of "p s ! j"] t by simp
  qed
  have feas: "0 \<le> rc a s' r j" if r: "r \<in> {1..k}" and j: "j \<in> {1..N}" for r j
  proof -
    have j': "1 \<le> j" "j \<le> N" using j by simp_all
    have f: "0 \<le> rc a s r j" using c r j unfolding core_inv_def by blast
    show ?thesis
    proof (cases "used s' ! j")
      case True
      then have "0 \<le> d" using C1 j' by blast
      then show ?thesis using rceq[OF j'(2), of r] f True by simp
    next
      case False
      show ?thesis
      proof (cases "used_row N s' r")
        case T: True
        then have "d \<le> rc a s r j" using C2 j' False unfolding used_row_def ps by blast
        then show ?thesis using rceq[OF j'(2), of r] T False by simp
      next
        case F: False
        then show ?thesis using rceq[OF j'(2), of r] f False by simp
      qed
    qed
  qed
  have vv: "v s' ! j \<le> 0 \<and> (p s ! j = 0 \<longrightarrow> v s' ! j = 0)" if j: "j \<in> {1..N}" for j
  proof -
    have j': "1 \<le> j" "j \<le> N" using j by simp_all
    have v': "v s' ! j = (if used s' ! j then v s ! j - d else v s ! j)"
      using rp j' unfolding round_post_def by blast
    have v0: "v s ! j \<le> 0" "p s ! j = 0 \<longrightarrow> v s ! j = 0"
      using c j unfolding core_inv_def by blast+
    show ?thesis
    proof (cases "used s' ! j")
      case True
      then have "0 \<le> d" "p s ! j \<noteq> 0" using C1 um j' by auto
      then show ?thesis using v' v0 True by simp
    next
      case False
      then show ?thesis using v' v0 by simp
    qed
  qed
  have zz: "u s' ! r = 0" if r: "k + 1 < r \<and> r \<le> N" for r
  proof -
    have z: "u s ! r = 0" using c r unfolding core_inv_def by blast
    have "\<not> used_row N s' r"
    proof
      assume "used_row N s' r"
      then obtain j2 where j2: "j2 \<le> N" "used s' ! j2" "p s ! j2 = r"
        unfolding used_row_def ps by blast
      show False
      proof (cases "j2 = 0")
        case True
        then show ?thesis using j2 p0 r by simp
      next
        case False
        then have "p s ! j2 \<le> k" using core_p_range(1)[OF c _ j2(1)] by simp
        then show ?thesis using j2 r by simp
      qed
    qed
    moreover have "u s' ! r = (if used_row N s' r then u s ! r + d else u s ! r)"
      using rp unfolding round_post_def by blast
    ultimately show ?thesis using z by simp
  qed
  have i1: "inj_on ((!) (p s)) (matched N s)" "(!) (p s) ` matched N s = {1..k}"
    using c unfolding core_inv_def by blast+
  have A: "\<forall>j\<in>matched N s. rc a s' (p s ! j) j = 0" using tight by blast
  have B: "\<forall>r\<in>{1..k}. \<forall>j\<in>{1..N}. 0 \<le> rc a s' r j" using feas by blast
  have C: "\<forall>j\<in>{1..N}. v s' ! j \<le> 0 \<and> (p s ! j = 0 \<longrightarrow> v s' ! j = 0)" using vv by blast
  have D: "\<forall>r. k + 1 < r \<and> r \<le> N \<longrightarrow> u s' ! r = 0" using zz by blast
  show ?thesis
    unfolding core_inv_def m ps
    by (intro conjI) (rule len'(1) len'(2) len(3) len'(4) i1 A B C D)+
qed

lemma bnd_inf: "4 * BND_d < INF_d" "0 < BND_d"
  by (simp_all add: BND_d_def INF_d_def)

lemma search_invD:
  assumes "search_inv a N i s"
  shows "1 \<le> i" "i \<le> N" "core_inv a N (i - 1) s" "length (minv s) = N + 1"
    "length (used s) = N + 1" "p s ! 0 = i" "j0 s \<le> N" "\<not> used s ! j0 s"
    "\<And>j. j \<le> N \<Longrightarrow> used s ! j \<Longrightarrow> j = 0 \<or> p s ! j \<noteq> 0"
    "used s ! 0 \<Longrightarrow> later_inv a N i s" "\<not> used s ! 0 \<Longrightarrow> first_inv N i s"
  using assms unfolding search_inv_def by (blast, blast, blast, blast, blast, blast, blast, blast, blast, presburger, presburger)

lemma core_invD:
  assumes "core_inv a N k s"
  shows "length (u s) = N + 1" "length (v s) = N + 1" "length (p s) = N + 1"
    "length (way s) = N + 1"
    "\<And>j. 1 \<le> j \<Longrightarrow> j \<le> N \<Longrightarrow> p s ! j \<noteq> 0 \<Longrightarrow> rc a s (p s ! j) j = 0"
    "\<And>r j. 1 \<le> r \<Longrightarrow> r \<le> k \<Longrightarrow> 1 \<le> j \<Longrightarrow> j \<le> N \<Longrightarrow> 0 \<le> rc a s r j"
    "\<And>j. 1 \<le> j \<Longrightarrow> j \<le> N \<Longrightarrow> v s ! j \<le> 0"
    "\<And>j. 1 \<le> j \<Longrightarrow> j \<le> N \<Longrightarrow> p s ! j = 0 \<Longrightarrow> v s ! j = 0"
    "\<And>r. k + 1 < r \<Longrightarrow> r \<le> N \<Longrightarrow> u s ! r = 0"
  using assms unfolding core_inv_def matched_def by simp_all

lemma first_round:
  assumes si: "search_inv a N i s" and nu: "\<not> used s ! 0" and b: "bounded a N"
  shows "\<exists>d. round_post a N s d (search_round a N s) \<and> search_inv a N i (search_round a N s)"
proof -
  define k where "k = i - 1"
  note sd = search_invD[OF si]
  have i: "1 \<le> i" "i \<le> N" using sd by blast+
  have k: "k < N" "k + 1 = i" using i by (simp_all add: k_def)
  have c: "core_inv a N k s" using sd(3) by (simp add: k_def)
  note cd = core_invD[OF c]
  have p0: "p s ! 0 = i" using sd by blast
  have fi: "first_inv N i s" using sd(11)[OF nu] .
  have j0: "j0 s = 0" and un: "\<And>j. j \<le> N \<Longrightarrow> \<not> used s ! j"
    and mi: "\<And>j. j \<le> N \<Longrightarrow> minv s ! j = INF_d" and ui: "u s ! i = 0"
    using fi unfolding first_inv_def by blast+
  have "\<exists>d. round_post a N s d (search_round a N s)"
  proof (rule search_round_post)
    show "length (u s) = N + 1" "length (v s) = N + 1" "length (p s) = N + 1"
      "length (way s) = N + 1" "length (minv s) = N + 1" "length (used s) = N + 1"
      using cd sd by blast+
    show "j0 s \<le> N" by (simp add: j0)
    show "\<forall>j\<le>N. j = j0 s \<or> used s ! j \<longrightarrow> p s ! j \<le> N"
      using un p0 i by (auto simp: j0)
    show "\<forall>j\<le>N. \<forall>j'\<le>N. (j = j0 s \<or> used s ! j) \<and> (j' = j0 s \<or> used s ! j') \<and>
                p s ! j = p s ! j' \<longrightarrow> j = j'"
      using un by (auto simp: j0)
  qed
  then obtain d where rp: "round_post a N s d (search_round a N s)" by blast
  define s' where "s' = search_round a N s"
  note rp' = rp[folded s'_def]
  have ps: "p s' = p s" using rp' unfolding round_post_def by blast
  have lens': "length (minv s') = N + 1" "length (used s') = N + 1"
    using rp' sd(4,5) unfolding round_post_def by simp_all
  have us': "used s' ! j = (j = 0)" if "j \<le> N" for j
  proof -
    have "used s' ! j = (j = j0 s \<or> used s ! j)"
      using rp' that unfolding round_post_def by blast
    then show ?thesis using un[OF that] by (simp add: j0)
  qed
  have ab: "\<bar>a ! r ! j\<bar> \<le> BND_d" if "1 \<le> r" "r \<le> N" "1 \<le> j" "j \<le> N" for r j
    using b that unfolding bounded_def by blast
  have vb: "- 2 * BND_d \<le> v s ! j \<and> v s ! j \<le> 0" if "1 \<le> j" "j \<le> N" for j
    using pot_bounds(2)[OF c b k(1)] that by blast
  have cur: "rc a s i j = a ! i ! j - v s ! j" for j by (simp add: rc_def ui)
  have curb: "- BND_d \<le> rc a s i j \<and> rc a s i j \<le> 3 * BND_d" if "1 \<le> j" "j \<le> N" for j
    using ab[OF i that] vb[OF that] unfolding cur by (simp add: abs_le_iff)
  have curI: "rc a s i j < INF_d" if "1 \<le> j" "j \<le> N" for j
    using curb[OF that] bnd_inf by linarith
  have rpj: "minv s' ! j = min (minv s ! j) (rc a s (p s ! j0 s) j) - d \<and>
        way s' ! j = (if rc a s (p s ! j0 s) j < minv s ! j then j0 s else way s ! j)"
    if "1 \<le> j" "j \<le> N" for j
  proof -
    have "\<not> used s' ! j" using us' that by simp
    then show ?thesis using rp' that unfolding round_post_def by blast
  qed
  have mv': "minv s' ! j = rc a s i j - d" and wy': "way s' ! j = 0" if "1 \<le> j" "j \<le> N" for j
    using rpj[OF that] curI[OF that] mi[of j] that by (simp_all add: j0 p0)
  have nn: "0 \<le> minv s' ! j" if "1 \<le> j" "j \<le> N" for j
  proof -
    have "\<not> used s' ! j" using us' that by simp
    then show ?thesis using rp' that unfolding round_post_def by blast
  qed
  have dle: "d \<le> rc a s i j" if "1 \<le> j" "j \<le> N" for j
    using nn[OF that] mv'[OF that] by simp
  have j0N: "j0 s' \<le> N" using rp' unfolding round_post_def by blast
  have j0c: "if j0 s' = 0 then d = INF_d
      else \<not> used s' ! j0 s' \<and> minv s' ! j0 s' = 0 \<and> d < INF_d"
    using rp' unfolding round_post_def by blast
  have j0ne: "j0 s' \<noteq> 0"
  proof
    assume "j0 s' = 0"
    then have "d = INF_d" using j0c by simp
    moreover have "d \<le> rc a s i 1" using dle[of 1] i by simp
    moreover have "rc a s i 1 < INF_d" using curI[of 1] i by simp
    ultimately show False by simp
  qed
  then have j0': "1 \<le> j0 s'" "\<not> used s' ! j0 s'" "minv s' ! j0 s' = 0"
    using j0c by simp_all
  have core': "core_inv a N k s'"
  proof (rule core_round[OF c rp'])
    show "p s ! 0 = k + 1" using p0 k by simp
    show "\<forall>j\<le>N. used s' ! j \<longrightarrow> j = 0 \<or> p s ! j \<noteq> 0" using us' by simp
    show "(\<exists>j. 1 \<le> j \<and> j \<le> N \<and> used s' ! j) \<longrightarrow> 0 \<le> d" using us' by auto
    show "\<forall>j'\<le>N. used s' ! j' \<longrightarrow> (\<forall>j. 1 \<le> j \<and> j \<le> N \<and> \<not> used s' ! j \<longrightarrow> d \<le> rc a s (p s ! j') j)"
      using us' dle p0 by simp
  qed
  have ur: "used_row N s' i" using us'[of 0] p0 ps unfolding used_row_def by auto
  have rc': "rc a s' i j = rc a s i j - d" if "1 \<le> j" "j \<le> N" for j
    using round_rc[OF rp' that(2), of i] ur us'[OF that(2)] that by simp
  have L1: "\<forall>j\<in>{1..N}. 0 \<le> rc a s' i j" using rc' dle by simp
  have L2: "\<forall>j\<in>{1..N}. \<not> used s' ! j \<longrightarrow>
        minv s' ! j < INF_d \<and> used s' ! (way s' ! j) \<and> way s' ! j \<le> N \<and>
        minv s' ! j = rc a s' (p s' ! (way s' ! j)) j \<and>
        (\<forall>j'\<le>N. used s' ! j' \<longrightarrow> minv s' ! j \<le> rc a s' (p s' ! j') j)"
  proof (intro ballI impI)
    fix j assume "j \<in> {1..N}" 
    then have j: "1 \<le> j" "j \<le> N" by simp_all
    have dl: "- BND_d \<le> d"
    proof -
      have "d = rc a s i (j0 s')" using mv'[OF j0'(1) j0N] j0'(3) by simp
      then show ?thesis using curb[OF j0'(1) j0N] by simp
    qed
    have 1: "minv s' ! j < INF_d"
      using mv'[OF j] curb[OF j] dl bnd_inf by linarith
    have 2: "used s' ! (way s' ! j)" "way s' ! j \<le> N" using wy'[OF j] us' by simp_all
    have 3: "minv s' ! j = rc a s' (p s' ! (way s' ! j)) j"
      using wy'[OF j] mv'[OF j] rc'[OF j] by (simp add: ps p0)
    have 4: "\<forall>j'\<le>N. used s' ! j' \<longrightarrow> minv s' ! j \<le> rc a s' (p s' ! j') j"
      using us' mv'[OF j] rc'[OF j] by (simp add: ps p0)
    show "minv s' ! j < INF_d \<and> used s' ! (way s' ! j) \<and> way s' ! j \<le> N \<and>
        minv s' ! j = rc a s' (p s' ! (way s' ! j)) j \<and>
        (\<forall>j'\<le>N. used s' ! j' \<longrightarrow> minv s' ! j \<le> rc a s' (p s' ! j') j)"
      using 1 2 3 4 by blast
  qed
  have L3: "\<exists>f::nat \<Rightarrow> nat. \<forall>j\<in>{1..N}. used s' ! j \<longrightarrow>
        used s' ! (way s' ! j) \<and> way s' ! j \<le> N \<and> f (way s' ! j) < f j \<and>
        rc a s' (p s' ! (way s' ! j)) j = 0"
    using us' by simp
  have later: "later_inv a N i s'"
    unfolding later_inv_def
    by (intro conjI) (rule j0'(1) L1 j0'(3) L2 L3)+
  have u0: "used s' ! 0" using us'[of 0] by simp
  have um: "\<forall>j\<le>N. used s' ! j \<longrightarrow> j = 0 \<or> p s' ! j \<noteq> 0" using us' by simp
  have "search_inv a N i s'"
    unfolding search_inv_def
    using i core' lens' p0 ps j0N j0'(2) um u0 later by (simp add: k_def)
  then show ?thesis using rp' unfolding s'_def by blast
qed

lemma later_round:
  assumes si: "search_inv a N i s" and u0: "used s ! 0" and cont: "p s ! j0 s \<noteq> 0"
    and b: "bounded a N"
  shows "\<exists>d. round_post a N s d (search_round a N s) \<and> search_inv a N i (search_round a N s)"
proof -
  define k where "k = i - 1"
  define i0 where "i0 = p s ! j0 s"
  note sd = search_invD[OF si]
  have i: "1 \<le> i" "i \<le> N" using sd by blast+
  have k: "k < N" "k + 1 = i" using i by (simp_all add: k_def)
  have c: "core_inv a N k s" using sd(3) by (simp add: k_def)
  note cd = core_invD[OF c]
  have p0: "p s ! 0 = i" using sd by blast
  have j0N: "j0 s \<le> N" and j0u: "\<not> used s ! j0 s" using sd by blast+
  have um: "j = 0 \<or> p s ! j \<noteq> 0" if "j \<le> N" "used s ! j" for j using sd(9)[OF that] .
  have la: "later_inv a N i s" using sd(10)[OF u0] .
  have j01: "1 \<le> j0 s" and fi: "\<And>j. 1 \<le> j \<Longrightarrow> j \<le> N \<Longrightarrow> 0 \<le> rc a s i j"
    and m0: "minv s ! j0 s = 0"
    using la unfolding later_inv_def by simp_all
  have MV: "minv s ! j < INF_d \<and> used s ! (way s ! j) \<and> way s ! j \<le> N \<and>
        minv s ! j = rc a s (p s ! (way s ! j)) j \<and>
        (\<forall>j'\<le>N. used s ! j' \<longrightarrow> minv s ! j \<le> rc a s (p s ! j') j)"
    if "1 \<le> j" "j \<le> N" "\<not> used s ! j" for j
  proof -
    have "j \<in> {1..N}" using that by simp
    with la that(3) show ?thesis unfolding later_inv_def by blast
  qed
  obtain f :: "nat \<Rightarrow> nat" where W: "\<forall>j\<in>{1..N}. used s ! j \<longrightarrow>
        used s ! (way s ! j) \<and> way s ! j \<le> N \<and> f (way s ! j) < f j \<and>
        rc a s (p s ! (way s ! j)) j = 0"
    using la unfolding later_inv_def by blast
  have prow: "1 \<le> p s ! j \<and> p s ! j \<le> i" if "j \<le> N" "j = j0 s \<or> used s ! j" for j
  proof (cases "j = 0")
    case True
    then show ?thesis using p0 i by simp
  next
    case False
    then have "p s ! j \<noteq> 0" using that um cont by blast
    then have "p s ! j \<in> {1..k}" using core_p_range(2)[OF c _ that(1)] False by simp
    then show ?thesis using k by simp
  qed
  have i0r: "1 \<le> i0" "i0 \<le> k"
    using core_p_range(2)[OF c j01 j0N cont] by (simp_all add: i0_def)
  have feasr: "0 \<le> rc a s r j" if "1 \<le> r" "r \<le> i" "1 \<le> j" "j \<le> N" for r j
  proof (cases "r = i")
    case True
    then show ?thesis using fi that by simp
  next
    case False
    then have "r \<le> k" using that k by simp
    then show ?thesis using cd(6) that by simp
  qed
  have feasu: "0 \<le> rc a s (p s ! j') j"
    if "j' \<le> N" "j' = j0 s \<or> used s ! j'" "1 \<le> j" "j \<le> N" for j' j
    using feasr prow[OF that(1,2)] that(3,4) by simp
  have injp: "j = j'" if "j \<le> N" "j' \<le> N" "j = j0 s \<or> used s ! j" "j' = j0 s \<or> used s ! j'"
     "p s ! j = p s ! j'" for j j'
  proof (cases "j = 0")
    case True
    show ?thesis
    proof (rule ccontr)
      assume n: "j \<noteq> j'"
      then have "j' \<noteq> 0" using True by simp
      moreover have "p s ! j' \<noteq> 0" using prow[OF that(2,4)] by simp
      ultimately have "p s ! j' \<le> k" using core_p_range(1)[OF c _ that(2)] by simp
      then show False using that(5) True p0 k by simp
    qed
  next
    case False
    show ?thesis
    proof (cases "j' = 0")
      case True
      have "p s ! j \<le> k" using core_p_range(1)[OF c _ that(1)] False by simp
      then show ?thesis using that(5) True p0 k by simp
    next
      case F: False
      have "p s ! j \<noteq> 0" using prow[OF that(1,3)] by simp
      then show ?thesis using core_inj[OF c _ that(1) _ that(2) that(5)] False F by simp
    qed
  qed
  have "\<exists>d. round_post a N s d (search_round a N s)"
  proof (rule search_round_post)
    show "length (u s) = N + 1" "length (v s) = N + 1" "length (p s) = N + 1"
      "length (way s) = N + 1" "length (minv s) = N + 1" "length (used s) = N + 1"
      using cd sd by blast+
    show "j0 s \<le> N" by (rule j0N)
    show "\<forall>j\<le>N. j = j0 s \<or> used s ! j \<longrightarrow> p s ! j \<le> N"
    proof (intro allI impI)
      fix j assume "j \<le> N" "j = j0 s \<or> used s ! j"
      then have "p s ! j \<le> i" using prow by blast
      then show "p s ! j \<le> N" using i by simp
    qed
    show "\<forall>j\<le>N. \<forall>j'\<le>N. (j = j0 s \<or> used s ! j) \<and> (j' = j0 s \<or> used s ! j') \<and>
                p s ! j = p s ! j' \<longrightarrow> j = j'"
      using injp by blast
  qed
  then obtain d where rp: "round_post a N s d (search_round a N s)" by blast
  define s' where "s' = search_round a N s"
  note rp' = rp[folded s'_def]
  have ps: "p s' = p s" using rp' unfolding round_post_def by blast
  have lens': "length (minv s') = N + 1" "length (used s') = N + 1"
    using rp' sd(4,5) unfolding round_post_def by simp_all
  have us': "used s' ! j = (j = j0 s \<or> used s ! j)" if "j \<le> N" for j
    using rp' that unfolding round_post_def by blast
  have rpj: "minv s' ! j = min (minv s ! j) (rc a s i0 j) - d \<and>
        way s' ! j = (if rc a s i0 j < minv s ! j then j0 s else way s ! j)"
    if "1 \<le> j" "j \<le> N" "\<not> used s' ! j" for j
    using rp' that unfolding round_post_def i0_def by blast
  have wyu: "way s' ! j = way s ! j" if "j \<le> N" "used s' ! j" for j
    using rp' that unfolding round_post_def by blast
  have nn: "0 \<le> minv s' ! j" if "1 \<le> j" "j \<le> N" "\<not> used s' ! j" for j
    using rp' that unfolding round_post_def by blast
  have dmin: "d \<le> minv s ! j" "d \<le> rc a s i0 j" if "1 \<le> j" "j \<le> N" "\<not> used s' ! j" for j
    using nn[OF that] rpj[OF that] by simp_all
  have j0N': "j0 s' \<le> N" using rp' unfolding round_post_def by blast
  have j0c: "if j0 s' = 0 then d = INF_d
      else \<not> used s' ! j0 s' \<and> minv s' ! j0 s' = 0 \<and> d < INF_d"
    using rp' unfolding round_post_def by blast
  obtain js where js: "1 \<le> js" "js \<le> N" "p s ! js = 0"
    using core_unmatched[OF c k(1)] by blast
  have jsu: "\<not> used s' ! js"
  proof -
    have "js \<noteq> j0 s" using js cont by auto
    moreover have "\<not> used s ! js" using um[OF js(2)] js by auto
    ultimately show ?thesis using us'[OF js(2)] by simp
  qed
  have jsu0: "\<not> used s ! js" using jsu us'[OF js(2)] by simp
  have dI: "d < INF_d" using dmin(1)[OF js(1,2) jsu] MV[OF js(1,2) jsu0] by simp
  have j0ne: "j0 s' \<noteq> 0"
  proof
    assume "j0 s' = 0"
    then have "d = INF_d" using j0c by simp
    then show False using dI by simp
  qed
  then have j0': "1 \<le> j0 s'" "\<not> used s' ! j0 s'" "minv s' ! j0 s' = 0"
    using j0c by simp_all
  have j0u0: "\<not> used s ! j0 s'" using j0'(2) us'[OF j0N'] by simp
  have d0: "0 \<le> d"
  proof -
    have e: "d = min (minv s ! j0 s') (rc a s i0 (j0 s'))"
      using rpj[OF j0'(1) j0N' j0'(2)] j0'(3) by simp
    have m: "used s ! (way s ! j0 s')" "way s ! j0 s' \<le> N"
      "minv s ! j0 s' = rc a s (p s ! (way s ! j0 s')) (j0 s')"
      using MV[OF j0'(1) j0N' j0u0] by blast+
    have "0 \<le> minv s ! j0 s'" using feasu[OF m(2) _ j0'(1) j0N'] m(1,3) by simp
    moreover have "0 \<le> rc a s i0 (j0 s')" using feasu[OF j0N _ j0'(1) j0N'] by (simp add: i0_def)
    ultimately show ?thesis using e by simp
  qed
  have C2: "d \<le> rc a s (p s ! j') j" 
    if "j' \<le> N" "used s' ! j'" "1 \<le> j" "j \<le> N" "\<not> used s' ! j" for j' j
  proof (cases "j' = j0 s")
    case True
    then show ?thesis using dmin(2)[OF that(3,4,5)] by (simp add: i0_def)
  next
    case False
    then have uj: "used s ! j'" using that us' by simp
    have "\<not> used s ! j" using that us' by simp
    then have "minv s ! j \<le> rc a s (p s ! j') j" using MV[OF that(3,4)] uj that(1) by blast
    then show ?thesis using dmin(1)[OF that(3,4,5)] by simp
  qed
  have um': "j = 0 \<or> p s ! j \<noteq> 0" if "j \<le> N" "used s' ! j" for j
  proof (cases "j = j0 s")
    case True
    then show ?thesis using cont by simp
  next
    case False
    then have "used s ! j" using that us'[OF that(1)] by simp
    then show ?thesis using um[OF that(1)] by simp
  qed
  have core': "core_inv a N k s'"
  proof (rule core_round[OF c rp'])
    show "p s ! 0 = k + 1" using p0 k by simp
    show "\<forall>j\<le>N. used s' ! j \<longrightarrow> j = 0 \<or> p s ! j \<noteq> 0" using um' by blast
    show "(\<exists>j. 1 \<le> j \<and> j \<le> N \<and> used s' ! j) \<longrightarrow> 0 \<le> d" using d0 by simp
    show "\<forall>j'\<le>N. used s' ! j' \<longrightarrow> (\<forall>j. 1 \<le> j \<and> j \<le> N \<and> \<not> used s' ! j \<longrightarrow> d \<le> rc a s (p s ! j') j)"
      using C2 by blast
  qed
  have u0': "used s' ! 0" using us'[of 0] u0 by simp
  have urow: "used_row N s' (p s ! j')" if "j' \<le> N" "used s' ! j'" for j'
    using that ps unfolding used_row_def by auto
  have rcuu: "rc a s' (p s ! j') j = rc a s (p s ! j') j"
    if "j' \<le> N" "used s' ! j'" "j \<le> N" "used s' ! j" for j' j
    using round_rc[OF rp' that(3), of "p s ! j'"] urow[OF that(1,2)] that(4) by simp
  have rcun: "rc a s' (p s ! j') j = rc a s (p s ! j') j - d"
    if "j' \<le> N" "used s' ! j'" "j \<le> N" "\<not> used s' ! j" for j' j
    using round_rc[OF rp' that(3), of "p s ! j'"] urow[OF that(1,2)] that(4) by simp
  have L1: "\<forall>j\<in>{1..N}. 0 \<le> rc a s' i j"
  proof
    fix j assume "j \<in> {1..N}"
    then have j: "1 \<le> j" "j \<le> N" by simp_all
    show "0 \<le> rc a s' i j"
    proof (cases "used s' ! j")
      case True
      then show ?thesis using rcuu[of 0 j] u0' j fi[OF j] p0 by simp
    next
      case False
      then show ?thesis using rcun[of 0 j] u0' j C2[of 0 j] p0 by simp
    qed
  qed
  have L2: "\<forall>j\<in>{1..N}. \<not> used s' ! j \<longrightarrow>
        minv s' ! j < INF_d \<and> used s' ! (way s' ! j) \<and> way s' ! j \<le> N \<and>
        minv s' ! j = rc a s' (p s' ! (way s' ! j)) j \<and>
        (\<forall>j'\<le>N. used s' ! j' \<longrightarrow> minv s' ! j \<le> rc a s' (p s' ! j') j)"
  proof (intro ballI impI)
    fix j assume "j \<in> {1..N}" and ju: "\<not> used s' ! j"
    then have j: "1 \<le> j" "j \<le> N" by simp_all
    have ju0: "\<not> used s ! j" "j \<noteq> j0 s" using ju us'[OF j(2)] by auto
    note mvj = MV[OF j ju0(1)]
    note r = rpj[OF j ju]
    have r1: "minv s' ! j = min (minv s ! j) (rc a s i0 j) - d" using r by blast
    have mI: "minv s ! j < INF_d" using mvj by blast
    have "minv s' ! j \<le> minv s ! j" unfolding r1 using d0 by simp
    then have 1: "minv s' ! j < INF_d" using mI by simp
    have wu: "used s' ! (way s' ! j) \<and> way s' ! j \<le> N \<and>
       rc a s (p s ! (way s' ! j)) j = min (minv s ! j) (rc a s i0 j)"
    proof (cases "rc a s i0 j < minv s ! j")
      case True
      then have "way s' ! j = j0 s" using r by simp
      then show ?thesis using us'[OF j0N] j0N True by (simp add: i0_def)
    next
      case False
      then have w: "way s' ! j = way s ! j" using r by simp
      have "used s' ! (way s ! j)" using mvj us' by simp
      then show ?thesis using w mvj False by simp
    qed
    have 3: "minv s' ! j = rc a s' (p s' ! (way s' ! j)) j"
      using rcun[of "way s' ! j" j] wu j ju r by (simp add: ps)
    have 4: "\<forall>j'\<le>N. used s' ! j' \<longrightarrow> minv s' ! j \<le> rc a s' (p s' ! j') j"
    proof (intro allI impI)
      fix j' assume j': "j' \<le> N" "used s' ! j'"
      have "min (minv s ! j) (rc a s i0 j) \<le> rc a s (p s ! j') j"
      proof (cases "j' = j0 s")
        case True
        then show ?thesis by (simp add: i0_def)
      next
        case False
        then have "used s ! j'" using j' us' by simp
        then have "minv s ! j \<le> rc a s (p s ! j') j" using mvj j'(1) by blast
        then show ?thesis by simp
      qed
      then show "minv s' ! j \<le> rc a s' (p s' ! j') j"
        using rcun[OF j' j(2) ju] r by (simp add: ps)
    qed
    show "minv s' ! j < INF_d \<and> used s' ! (way s' ! j) \<and> way s' ! j \<le> N \<and>
        minv s' ! j = rc a s' (p s' ! (way s' ! j)) j \<and>
        (\<forall>j'\<le>N. used s' ! j' \<longrightarrow> minv s' ! j \<le> rc a s' (p s' ! j') j)"
      using 1 wu 3 4 by blast
  qed
  define f' where "f' = f(j0 s := Suc (f (way s ! j0 s)))"
  have mj0: "used s ! (way s ! j0 s)" "way s ! j0 s \<le> N"
      "minv s ! j0 s = rc a s (p s ! (way s ! j0 s)) (j0 s)"
    using MV[OF j01 j0N j0u] by blast+
  have wne: "way s ! j0 s \<noteq> j0 s" using mj0(1) j0u by auto
  have L3a: "\<forall>j\<in>{1..N}. used s' ! j \<longrightarrow>
        used s' ! (way s' ! j) \<and> way s' ! j \<le> N \<and> f' (way s' ! j) < f' j \<and>
        rc a s' (p s' ! (way s' ! j)) j = 0"
  proof (intro ballI impI)
    fix j assume "j \<in> {1..N}" and ju: "used s' ! j"
    then have j: "1 \<le> j" "j \<le> N" by simp_all
    have w: "way s' ! j = way s ! j" using wyu[OF j(2) ju] .
    have P: "used s ! (way s ! j) \<and> way s ! j \<le> N \<and> f' (way s ! j) < f' j \<and>
        rc a s (p s ! (way s ! j)) j = 0"
    proof (cases "j = j0 s")
      case True
      have "f' (way s ! j0 s) = f (way s ! j0 s)" using wne by (simp add: f'_def)
      moreover have "f' (j0 s) = Suc (f (way s ! j0 s))" by (simp add: f'_def)
      ultimately show ?thesis using True mj0 m0 by simp
    next
      case False
      then have uj: "used s ! j" using ju us'[OF j(2)] by simp
      then have h: "used s ! (way s ! j)" "way s ! j \<le> N" "f (way s ! j) < f j"
        "rc a s (p s ! (way s ! j)) j = 0"
        using W j by simp_all
      have "way s ! j \<noteq> j0 s" using h(1) j0u by auto
      then have "f' (way s ! j) = f (way s ! j)" "f' j = f j" using False by (simp_all add: f'_def)
      then show ?thesis using h by simp
    qed
    have uw: "used s' ! (way s ! j)" using P us' by simp
    have "rc a s' (p s ! (way s ! j)) j = rc a s (p s ! (way s ! j)) j"
      using rcuu[of "way s ! j" j] P uw j ju by simp
    then show "used s' ! (way s' ! j) \<and> way s' ! j \<le> N \<and> f' (way s' ! j) < f' j \<and>
        rc a s' (p s' ! (way s' ! j)) j = 0"
      using P uw by (simp add: w ps)
  qed
  then have L3: "\<exists>f::nat \<Rightarrow> nat. \<forall>j\<in>{1..N}. used s' ! j \<longrightarrow>
        used s' ! (way s' ! j) \<and> way s' ! j \<le> N \<and> f (way s' ! j) < f j \<and>
        rc a s' (p s' ! (way s' ! j)) j = 0"
    by (rule exI[of _ f'])
  have later: "later_inv a N i s'"
    unfolding later_inv_def
    by (intro conjI) (rule j0'(1) L1 j0'(3) L2 L3)+
  have umm: "\<forall>j\<le>N. used s' ! j \<longrightarrow> j = 0 \<or> p s' ! j \<noteq> 0" using um' by (simp add: ps)
  have "search_inv a N i s'"
    unfolding search_inv_def
    using i core' lens' p0 ps j0N' j0'(2) umm u0' later by (simp add: k_def)
  then show ?thesis using rp' unfolding s'_def by blast
qed

lemma search_unfold:
  "search a N s =
     (if continues (search_round a N s) then search a N (search_round a N s)
      else Some (search_round a N s))"
  by (subst search.simps) (simp add: Let_def continues_def)

lemma search_exits:
  "exits_after a N s k \<Longrightarrow> search a N s = Some ((search_round a N ^^ k) s)"
proof (induction k arbitrary: s)
  case 0
  then show ?case by (simp add: exits_after_def)
next
  case (Suc k)
  show ?case
  proof (cases "k = 0")
    case True
    then have "\<not> continues (search_round a N s)"
      using Suc.prems by (simp add: exits_after_def)
    then show ?thesis using True by (subst search_unfold) simp
  next
    case False
    have sh: "(search_round a N ^^ k') (search_round a N s) = (search_round a N ^^ Suc k') s" for k'
      by (simp add: funpow_swap1)
    have c1: "continues (search_round a N s)"
    proof -
      have "continues ((search_round a N ^^ 1) s)"
        using Suc.prems False unfolding exits_after_def by (metis One_nat_def Suc_lessI le_refl less_Suc_eq_0_disj less_numeral_extra(1) not_less_eq)
      then show ?thesis by simp
    qed
    have "exits_after a N (search_round a N s) k"
      unfolding exits_after_def sh
    proof (intro conjI allI impI)
      show "1 \<le> k" using False by simp
      show "\<not> continues ((search_round a N ^^ Suc k) s)"
        using Suc.prems unfolding exits_after_def by blast
      fix k' assume "1 \<le> k' \<and> k' < k"
      then have "1 \<le> Suc k' \<and> Suc k' < Suc k" by simp
      then show "continues ((search_round a N ^^ Suc k') s)"
        using Suc.prems unfolding exits_after_def by blast
    qed
    then have "search a N (search_round a N s) = Some ((search_round a N ^^ k) (search_round a N s))"
      by (rule Suc.IH)
    then show ?thesis using c1 by (subst search_unfold) (simp add: sh)
  qed
qed

lemma round_inv:
  assumes "search_inv a N i s" "continues s" "bounded a N"
  shows "\<exists>d. round_post a N s d (search_round a N s) \<and> search_inv a N i (search_round a N s)"
proof (cases "used s ! 0")
  case True
  then show ?thesis using later_round[OF assms(1) True _ assms(3)] assms(2)
    by (simp add: continues_def)
next
  case False
  then show ?thesis using first_round[OF assms(1) False assms(3)] by simp
qed

lemma round_usedset:
  assumes rp: "round_post a N s d s'" and j0: "j0 s \<le> N" "\<not> used s ! j0 s"
  shows "usedset N s' = insert (j0 s) (usedset N s)" "j0 s \<notin> usedset N s"
proof -
  have "used s' ! j = (j = j0 s \<or> used s ! j)" if "j \<le> N" for j
    using rp that unfolding round_post_def by blast
  then show "usedset N s' = insert (j0 s) (usedset N s)"
    using j0 unfolding usedset_def by auto
  show "j0 s \<notin> usedset N s" using j0 by (simp add: usedset_def)
qed

lemma usedset_finite: "finite (usedset N s)"
  by (simp add: usedset_def)

lemma search_terminates:
  assumes "search_inv a N i s" "continues s" "bounded a N"
  shows "\<exists>k. exits_after a N s k \<and> search_inv a N i ((search_round a N ^^ k) s) \<and>
            card (usedset N ((search_round a N ^^ k) s)) = card (usedset N s) + k"
  using assms(1,2)
proof (induction "N + 1 - card (usedset N s)" arbitrary: s rule: less_induct)
  case less
  define s1 where "s1 = search_round a N s"
  obtain d where rp: "round_post a N s d s1" and si1: "search_inv a N i s1"
    using round_inv[OF less.prems assms(3)] unfolding s1_def by blast
  note sd = search_invD[OF less.prems(1)]
  have us: "usedset N s1 = insert (j0 s) (usedset N s)" "j0 s \<notin> usedset N s"
    using round_usedset[OF rp sd(7,8)] .
  have c1: "card (usedset N s1) = card (usedset N s) + 1"
    using us usedset_finite[of N s] by simp
  have sub: "usedset N s1 \<subseteq> {0..N}" by (auto simp: usedset_def)
  have "card (usedset N s1) \<le> card {0..N}"
    by (rule card_mono[OF _ sub]) simp
  then have cb: "card (usedset N s1) \<le> N + 1" by simp
  show ?case
  proof (cases "continues s1")
    case False
    have "exits_after a N s 1"
      using False by (simp add: exits_after_def s1_def)
    then show ?thesis using si1 c1 unfolding s1_def by (intro exI[of _ 1]) simp
  next
    case True
    have "N + 1 - card (usedset N s1) < N + 1 - card (usedset N s)"
      using c1 cb by simp
    then obtain k where k: "exits_after a N s1 k"
      "search_inv a N i ((search_round a N ^^ k) s1)"
      "card (usedset N ((search_round a N ^^ k) s1)) = card (usedset N s1) + k"
      using less.hyps[OF _ si1 True] by blast
    have sh: "(search_round a N ^^ k') s1 = (search_round a N ^^ Suc k') s" for k'
      by (simp add: funpow_swap1 s1_def)
    have "exits_after a N s (Suc k)"
      unfolding exits_after_def
    proof (intro conjI allI impI)
      show "1 \<le> Suc k" by simp
      show "\<not> continues ((search_round a N ^^ Suc k) s)"
        using k(1) unfolding exits_after_def sh by blast
      fix k' assume h: "1 \<le> k' \<and> k' < Suc k"
      show "continues ((search_round a N ^^ k') s)"
      proof (cases "k' = 1")
        case T: True
        then show ?thesis using True by (simp add: s1_def)
      next
        case F: False
        then obtain k2 where k2: "k' = Suc k2" "1 \<le> k2" "k2 < k"
          using h by (metis One_nat_def Suc_le_D Suc_less_eq le_eq_less_or_eq less_Suc_eq_le)
        then show ?thesis using k(1) unfolding exits_after_def sh by blast
      qed
    qed
    then show ?thesis using k(2,3) c1 unfolding sh by (intro exI[of _ "Suc k"]) simp
  qed
qed

lemma search_inv_used_card:
  assumes "search_inv a N i s"
  shows "card (usedset N s) \<le> i"
proof -
  note sd = search_invD[OF assms]
  have "usedset N s \<subseteq> insert 0 (matched N s)"
    using sd(9) unfolding usedset_def matched_def by auto
  then have "card (usedset N s) \<le> card (insert 0 (matched N s))"
    by (intro card_mono) (simp_all add: matched_finite)
  also have "\<dots> \<le> Suc (card (matched N s))" by (simp add: card_insert_le_m1 matched_finite card_insert_if)
  also have "\<dots> = i" using core_card[OF sd(3)] sd(1) by simp
  finally show ?thesis .
qed

lemma augment_step_simps:
  "p (augment_step s) = (p s)[j0 s := p s ! (way s ! j0 s)]"
  "j0 (augment_step s) = way s ! j0 s"
  "u (augment_step s) = u s" "v (augment_step s) = v s" "way (augment_step s) = way s"
  "minv (augment_step s) = minv s" "used (augment_step s) = used s"
  by (simp_all add: augment_step_def Let_def)

lemma augment_step_perm:
  assumes pi: "perm_inv N i s" and w: "way s ! j0 s \<le> N"
  shows "perm_inv N i (augment_step s)"
proof -
  define j where "j = j0 s"
  define j1 where "j1 = way s ! j0 s"
  define ps where "ps = p s"
  define ps' where "ps' = ps[j := ps ! j1]"
  define S where "S = {x. x \<le> N \<and> ps ! x \<noteq> 0} - {j}"
  define S' where "S' = {x. x \<le> N \<and> ps' ! x \<noteq> 0} - {j1}"
  have len: "length ps = N + 1" and jN: "j \<le> N" and inj: "inj_on ((!) ps) S"
    and im: "(!) ps ` S = {1..i}"
    using pi unfolding perm_inv_def pending_def ps_def j_def S_def by blast+
  have j1N: "j1 \<le> N" using w by (simp add: j1_def)
  have pj: "ps' ! j = ps ! j1" using len jN by (simp add: ps'_def)
  have po: "ps' ! x = ps ! x" if "x \<noteq> j" for x using that by (simp add: ps'_def)
  have main: "inj_on ((!) ps') S' \<and> (!) ps' ` S' = (!) ps ` S"
  proof (cases "j1 = j")
    case True
    then have "ps' = ps" by (simp add: ps'_def)
    then show ?thesis using inj True by (simp add: S_def S'_def)
  next
    case ne: False
    show ?thesis
    proof (cases "ps ! j1 = 0")
      case True
      have "S' = S"
      proof (rule set_eqI)
        fix x show "x \<in> S' \<longleftrightarrow> x \<in> S"
        proof (cases "x = j")
          case T: True
          then show ?thesis using pj True by (simp add: S_def S'_def)
        next
          case False
          then show ?thesis using po[OF False] True by (auto simp: S_def S'_def)
        qed
      qed
      moreover have "\<And>x. x \<in> S \<Longrightarrow> ps' ! x = ps ! x" using po by (simp add: S_def)
      ultimately show ?thesis using inj by (simp add: inj_on_def)
    next
      case False
      have j1S: "j1 \<in> S" using False j1N ne by (simp add: S_def)
      have jS: "j \<notin> S" by (simp add: S_def)
      have S'eq: "S' = insert j (S - {j1})"
      proof (rule set_eqI)
        fix x show "x \<in> S' \<longleftrightarrow> x \<in> insert j (S - {j1})"
        proof (cases "x = j")
          case True
          then show ?thesis using pj False jN ne by (simp add: S'_def)
        next
          case F: False
          then show ?thesis using po[OF F] by (auto simp: S_def S'_def)
        qed
      qed
      have eqS: "ps' ! x = ps ! x" if "x \<in> S - {j1}" for x
      proof -
        have "x \<noteq> j" using that jS by blast
        then show ?thesis by (rule po)
      qed
      have im1: "(!) ps' ` (S - {j1}) = (!) ps ` (S - {j1})"
        using eqS by (auto simp: image_iff)
      have inj1: "inj_on ((!) ps') (S - {j1})"
        using inj eqS by (simp add: inj_on_def)
      have notin: "ps ! j1 \<notin> (!) ps ` (S - {j1})"
        using inj j1S by (auto simp: inj_on_def)
      have "inj_on ((!) ps') S'"
        unfolding S'eq using inj1 notin pj im1 by (simp add: jS)
      moreover have "(!) ps' ` S' = (!) ps ` S"
      proof -
        have "(!) ps' ` S' = insert (ps ! j1) ((!) ps ` (S - {j1}))"
          unfolding S'eq using pj im1 by simp
        also have "\<dots> = (!) ps ` (insert j1 (S - {j1}))" by (simp only: image_insert)
        also have "insert j1 (S - {j1}) = S" using j1S by auto
        finally show ?thesis .
      qed
      ultimately show ?thesis by blast
    qed
  qed
  have "pending N (augment_step s) = S'"
    by (simp add: pending_def augment_step_simps S'_def ps'_def ps_def j_def j1_def)
  moreover have "p (augment_step s) = ps'"
    by (simp add: augment_step_simps ps'_def ps_def j_def j1_def)
  ultimately show ?thesis
    unfolding perm_inv_def using main im len j1N
    by (simp add: augment_step_simps ps'_def j1_def)
qed

lemma augment_unfold:
  "augment s = (if j0 (augment_step s) \<noteq> 0 then augment (augment_step s)
                else Some (augment_step s))"
  by (subst augment.simps) (simp add: Let_def)

lemma augment_terminates:
  assumes ch: "chain_ok a N s0 f"
    and ai: "aug_inv a N s0 f s" and pi: "perm_inv N i s"
  shows "\<exists>s'. augment s = Some s' \<and> aug_post a N i s0 s'"
  using ai pi
proof (induction "f (j0 s)" arbitrary: s rule: less_induct)
  case less
  note ai = less.prems(1) and pi = less.prems(2)
  define j where "j = j0 s"
  define j1 where "j1 = way s0 ! j"
  define s1 where "s1 = augment_step s"
  have fr: "u s = u s0" "v s = v s0" "way s = way s0"
    and j: "1 \<le> j" "j \<le> N" "used s0 ! j \<or> j = j0 s0"
    and low: "\<And>x. f x \<le> f j \<Longrightarrow> p s ! x = p s0 ! x"
    and tight: "\<And>x. 1 \<le> x \<Longrightarrow> x \<le> N \<Longrightarrow> x \<noteq> j \<Longrightarrow> p s ! x \<noteq> 0 \<Longrightarrow> rc a s0 (p s ! x) x = 0"
    and zero: "\<And>x. 1 \<le> x \<Longrightarrow> x \<le> N \<Longrightarrow> p s ! x = 0 \<Longrightarrow> p s0 ! x = 0"
    using ai unfolding aug_inv_def j_def by blast+
  have c: "used s0 ! j1" "j1 \<le> N" "f j1 < f j" "rc a s0 (p s0 ! j1) j = 0"
    using ch j unfolding chain_ok_def j1_def by blast+
  have p1n: "p s0 ! j1 \<noteq> 0" using ch c(1,2) unfolding chain_ok_def by blast
  have pj1: "p s ! j1 = p s0 ! j1" using low[of j1] c(3) by simp
  have lenp: "length (p s) = N + 1" using pi unfolding perm_inv_def by blast
  have s1: "p s1 = (p s)[j := p s0 ! j1]" "j0 s1 = j1" "u s1 = u s0" "v s1 = v s0" "way s1 = way s0"
    by (simp_all add: s1_def augment_step_simps j_def[symmetric] fr j1_def[symmetric] pj1)
  have pi1: "perm_inv N i s1"
    unfolding s1_def using augment_step_perm[OF pi] c(2) by (simp add: fr j_def j1_def)
  have ne: "j1 \<noteq> j" using c(3) by auto
  have pj: "p s1 ! j = p s0 ! j1" using lenp j(2) by (simp add: s1)
  have po: "p s1 ! x = p s ! x" if "x \<noteq> j" for x using that by (simp add: s1)
  have tight1: "rc a s0 (p s1 ! x) x = 0" if "1 \<le> x" "x \<le> N" "x \<noteq> j1" "p s1 ! x \<noteq> 0" for x
  proof (cases "x = j")
    case True
    then show ?thesis using pj c(4) by simp
  next
    case False
    then show ?thesis using tight[OF that(1,2) False] that(4) po[OF False] by simp
  qed
  have zero1: "p s0 ! x = 0" if "1 \<le> x" "x \<le> N" "p s1 ! x = 0" for x
  proof (cases "x = j")
    case True
    then show ?thesis using pj p1n that by simp
  next
    case False
    then show ?thesis using zero[OF that(1,2)] that(3) po[OF False] by simp
  qed
  show ?case
  proof (cases "j1 = 0")
    case True
    have "augment s = Some s1"
      by (subst augment_unfold) (simp add: s1_def[symmetric] s1 True)
    moreover have "aug_post a N i s0 s1"
      unfolding aug_post_def using s1 True pi1 tight1 zero1 by simp
    ultimately show ?thesis by blast
  next
    case False
    have "aug_inv a N s0 f s1"
      unfolding aug_inv_def
    proof (intro conjI allI impI)
      show "u s1 = u s0" "v s1 = v s0" "way s1 = way s0" by (simp_all add: s1)
      show "1 \<le> j0 s1" "j0 s1 \<le> N" "used s0 ! j0 s1 \<or> j0 s1 = j0 s0"
        using False c by (simp_all add: s1)
      show "p s1 ! x = p s0 ! x" if "f x \<le> f (j0 s1)" for x
      proof -
        have "f x < f j" using that c(3) by (simp add: s1)
        then have "x \<noteq> j" "f x \<le> f j" by auto
        then show ?thesis using po low by simp
      qed
      show "rc a s0 (p s1 ! x) x = 0"
        if "1 \<le> x \<and> x \<le> N \<and> x \<noteq> j0 s1 \<and> p s1 ! x \<noteq> 0" for x
        using tight1[of x] that by (simp add: s1)
      show "p s0 ! x = 0" if "1 \<le> x \<and> x \<le> N \<and> p s1 ! x = 0" for x
        using zero1[of x] that by simp
    qed
    moreover have "f (j0 s1) < f (j0 s)" using c(3) by (simp add: s1 j_def)
    ultimately obtain s' where "augment s1 = Some s'" "aug_post a N i s0 s'"
      using less.hyps[OF _ _ pi1] by blast
    moreover have "augment s = augment s1"
      by (subst augment_unfold) (simp add: s1_def[symmetric] s1 False)
    ultimately show ?thesis by simp
  qed
qed

lemma nth_rep: "j \<le> N \<Longrightarrow> replicate (N + 1) x ! j = x"
  by (simp del: replicate.simps)

lemma start_row_simps:
  "u (start_row N i s) = u s" "v (start_row N i s) = v s" "way (start_row N i s) = way s"
  "p (start_row N i s) = (p s)[0 := i]" "j0 (start_row N i s) = 0"
  "length (minv (start_row N i s)) = N + 1" "length (used (start_row N i s)) = N + 1"
  "j \<le> N \<Longrightarrow> minv (start_row N i s) ! j = INF_d"
  "j \<le> N \<Longrightarrow> \<not> used (start_row N i s) ! j"
  by (simp_all add: start_row_def nth_rep del: replicate.simps)

lemma init_state_simps:
  "length (u (init_state N)) = N + 1" "length (v (init_state N)) = N + 1"
  "length (p (init_state N)) = N + 1" "length (way (init_state N)) = N + 1"
  "j \<le> N \<Longrightarrow> u (init_state N) ! j = 0" "j \<le> N \<Longrightarrow> v (init_state N) ! j = 0"
  "j \<le> N \<Longrightarrow> p (init_state N) ! j = 0" "j \<le> N \<Longrightarrow> way (init_state N) ! j = 0"
  by (simp_all add: init_state_def nth_rep del: replicate.simps)

lemma rows_inv_init: "rows_inv a N 0 (init_state N)"
proof -
  have m: "matched N (init_state N) = {}"
    by (auto simp: matched_def init_state_simps)
  show ?thesis
    unfolding rows_inv_def core_inv_def m
    by (simp add: init_state_simps)
qed

lemma start_row_inv:
  assumes r: "rows_inv a N k s" and k: "k < N"
  shows "search_inv a N (k + 1) (start_row N (k + 1) s)"
    and "continues (start_row N (k + 1) s)"
proof -
  let ?s = "start_row N (k + 1) s"
  have c: "core_inv a N k s" and z: "u s ! (k + 1) = 0"
    using r k unfolding rows_inv_def by simp_all
  note cd = core_invD[OF c]
  have pj: "p ?s ! j = p s ! j" if "1 \<le> j" for j using that by (simp add: start_row_simps)
  have m: "matched N ?s = matched N s" using pj by (auto simp: matched_def)
  have im: "(!) (p ?s) ` matched N s = (!) (p s) ` matched N s"
    using pj by (auto simp: matched_def image_iff)
  have inj: "inj_on ((!) (p ?s)) (matched N s)"
  proof -
    have "inj_on ((!) (p s)) (matched N s)" using c unfolding core_inv_def by blast
    moreover have "\<And>x. x \<in> matched N s \<Longrightarrow> p ?s ! x = p s ! x" using pj by (simp add: matched_def)
    ultimately show ?thesis by (simp add: inj_on_def)
  qed
  have rceq: "rc a ?s r j = rc a s r j" for r j by (simp add: rc_def start_row_simps)
  have ims: "(!) (p s) ` matched N s = {1..k}" using c unfolding core_inv_def by blast
  have A: "\<forall>j\<in>matched N s. rc a s (p ?s ! j) j = 0"
    using cd(5) pj by (simp add: matched_def)
  have B: "\<forall>r\<in>{1..k}. \<forall>j\<in>{1..N}. 0 \<le> rc a s r j" using cd(6) by simp
  have C: "\<forall>j\<in>{1..N}. v s ! j \<le> 0 \<and> (p ?s ! j = 0 \<longrightarrow> v s ! j = 0)"
    using cd(7,8) pj by simp
  have D: "\<forall>r. k + 1 < r \<and> r \<le> N \<longrightarrow> u s ! r = 0" using cd(9) by simp
  have L: "length (p ?s) = N + 1" using cd(3) by (simp add: start_row_simps)
  have core: "core_inv a N k ?s"
    unfolding core_inv_def m rceq im ims
    unfolding start_row_simps(1,2,3)
    by (intro conjI) (rule cd(1) cd(2) L cd(4) inj[unfolded start_row_simps] refl A[unfolded start_row_simps] B C[unfolded start_row_simps] D inj A C)+
  have p0: "p ?s ! 0 = k + 1" using cd(3) by (simp add: start_row_simps)
  have fi: "first_inv N (k + 1) ?s"
    unfolding first_inv_def using z by (simp add: start_row_simps)
  have nu: "\<not> used ?s ! 0" by (simp add: start_row_simps)
  have nuall: "\<forall>j\<le>N. used ?s ! j \<longrightarrow> j = 0 \<or> p ?s ! j \<noteq> 0"
    by (simp add: start_row_simps(9))
  show "search_inv a N (k + 1) ?s"
    unfolding search_inv_def
    using core p0 fi nu k nuall by (simp add: start_row_simps(5,6,7))
  show "continues ?s" using p0 by (simp add: continues_def start_row_simps)
qed

lemma search_inv_funpow:
  assumes b: "bounded a N"
  shows "search_inv a N i s \<Longrightarrow> continues s \<Longrightarrow>
     (\<forall>k'. 1 \<le> k' \<and> k' < k \<longrightarrow> continues ((search_round a N ^^ k') s)) \<Longrightarrow>
     search_inv a N i ((search_round a N ^^ k) s)"
proof (induction k)
  case 0
  then show ?case by simp
next
  case (Suc k)
  have si: "search_inv a N i ((search_round a N ^^ k) s)"
    using Suc by simp
  have "continues ((search_round a N ^^ k) s)"
  proof (cases "k = 0")
    case True
    then show ?thesis using Suc.prems(2) by simp
  next
    case False
    then show ?thesis using Suc.prems(3) by simp
  qed
  then show ?case using round_inv[OF si _ b] by auto
qed

lemma exit_state:
  assumes si: "search_inv a N i s" and ex: "\<not> continues s"
  shows "used s ! 0" "later_inv a N i s" "\<exists>f. chain_ok a N s f"
    "aug_inv a N s f s" "perm_inv N i s"
proof -
  note sd = search_invD[OF si]
  have pj0: "p s ! j0 s = 0" using ex by (simp add: continues_def)
  show u0: "used s ! 0"
  proof (rule ccontr)
    assume n: "\<not> used s ! 0"
    then have "j0 s = 0" using sd(11) unfolding first_inv_def by blast
    then show False using pj0 sd(6) sd(1) by simp
  qed
  show la: "later_inv a N i s" using sd(10)[OF u0] .
  have c: "core_inv a N (i - 1) s" using sd(3) .
  note cd = core_invD[OF c]
  have j01: "1 \<le> j0 s" and m0: "minv s ! j0 s = 0"
    using la unfolding later_inv_def by simp_all
  have MV: "used s ! (way s ! j0 s) \<and> way s ! j0 s \<le> N \<and>
        minv s ! j0 s = rc a s (p s ! (way s ! j0 s)) (j0 s)"
  proof -
    have "j0 s \<in> {1..N}" using j01 sd(7) by simp
    with la sd(8) show ?thesis unfolding later_inv_def by blast
  qed
  obtain g :: "nat \<Rightarrow> nat" where W: "\<forall>j\<in>{1..N}. used s ! j \<longrightarrow>
        used s ! (way s ! j) \<and> way s ! j \<le> N \<and> g (way s ! j) < g j \<and>
        rc a s (p s ! (way s ! j)) j = 0"
    using la unfolding later_inv_def by blast
  define f' where "f' = g(j0 s := Suc (g (way s ! j0 s)))"
  have wne: "way s ! j0 s \<noteq> j0 s" using MV sd(8) by auto
  have un: "p s ! j \<noteq> 0" if "j \<le> N" "used s ! j" for j
  proof (cases "j = 0")
    case True
    then show ?thesis using sd(6) sd(1) by simp
  next
    case False
    then show ?thesis using sd(9)[OF that] by simp
  qed
  have P1: "used s ! (way s ! j) \<and> way s ! j \<le> N \<and> f' (way s ! j) < f' j \<and>
        rc a s (p s ! (way s ! j)) j = 0"
    if h: "1 \<le> j \<and> j \<le> N \<and> (used s ! j \<or> j = j0 s)" for j
    proof (cases "j = j0 s")
      case True
      have "f' (way s ! j0 s) = g (way s ! j0 s)" using wne by (simp add: f'_def)
      moreover have "f' (j0 s) = Suc (g (way s ! j0 s))" by (simp add: f'_def)
      ultimately show ?thesis using True MV m0 by simp
    next
      case False
      then have uj: "used s ! j" "j \<in> {1..N}" using h by simp_all
      then have hh: "used s ! (way s ! j)" "way s ! j \<le> N" "g (way s ! j) < g j"
        "rc a s (p s ! (way s ! j)) j = 0"
        using W by blast+
      have "way s ! j \<noteq> j0 s" using hh(1) sd(8) by auto
      then have "f' (way s ! j) = g (way s ! j)" "f' j = g j" using False by (simp_all add: f'_def)
      then show ?thesis using hh by simp
    qed
  have "chain_ok a N s f'"
    unfolding chain_ok_def using P1 un by blast
  then show "\<exists>f. chain_ok a N s f" by blast
  show "aug_inv a N s f s"
    unfolding aug_inv_def using j01 sd(7) cd(5) by simp
  have pend: "pending N s = insert 0 (matched N s)"
    using sd(6) sd(1) pj0 by (auto simp: pending_def matched_def)
  have inj: "inj_on ((!) (p s)) (matched N s)" and im: "(!) (p s) ` matched N s = {1..i - 1}"
    using c unfolding core_inv_def by blast+
  have "p s ! 0 \<notin> (!) (p s) ` matched N s" using im sd(6) sd(1) by simp
  moreover have "matched N s - {0} = matched N s" by (auto simp: matched_def)
  ultimately have "inj_on ((!) (p s)) (insert 0 (matched N s))"
    using inj by (simp add: inj_on_insert)
  moreover have "(!) (p s) ` insert 0 (matched N s) = {1..i}"
    using im sd(6) sd(1) by auto
  ultimately show "perm_inv N i s"
    unfolding perm_inv_def pend using cd(3) sd(7) by simp
qed

lemma augment_rows_inv:
  assumes si: "search_inv a N i s" and la: "later_inv a N i s"
    and ap: "aug_post a N i s s'"
  shows "rows_inv a N i s'"
proof -
  note sd = search_invD[OF si]
  have c: "core_inv a N (i - 1) s" using sd(3) .
  note cd = core_invD[OF c]
  have fr: "u s' = u s" "v s' = v s" "way s' = way s" "j0 s' = 0"
    and pi: "perm_inv N i s'"
    and tight: "\<And>j. 1 \<le> j \<Longrightarrow> j \<le> N \<Longrightarrow> p s' ! j \<noteq> 0 \<Longrightarrow> rc a s (p s' ! j) j = 0"
    and zero: "\<And>j. 1 \<le> j \<Longrightarrow> j \<le> N \<Longrightarrow> p s' ! j = 0 \<Longrightarrow> p s ! j = 0"
    using ap unfolding aug_post_def by blast+
  have rceq: "rc a s' r j = rc a s r j" for r j by (simp add: rc_def fr)
  have m: "pending N s' = matched N s'"
    by (auto simp: pending_def matched_def fr)
  have L: "length (u s') = N + 1" "length (v s') = N + 1" "length (p s') = N + 1"
    "length (way s') = N + 1"
    using cd(1,2,4) pi unfolding perm_inv_def by (simp_all add: fr)
  have I: "inj_on ((!) (p s')) (matched N s')" "(!) (p s') ` matched N s' = {1..i}"
    using pi unfolding perm_inv_def m by blast+
  have A: "\<forall>j\<in>matched N s'. rc a s (p s' ! j) j = 0"
    using tight by (simp add: matched_def)
  have fi: "\<And>j. 1 \<le> j \<Longrightarrow> j \<le> N \<Longrightarrow> 0 \<le> rc a s i j"
    using la unfolding later_inv_def by simp
  have B: "\<forall>r\<in>{1..i}. \<forall>j\<in>{1..N}. 0 \<le> rc a s r j"
  proof (intro ballI)
    fix r j assume r: "r \<in> {1..i}" and j: "j \<in> {1..N}"
    show "0 \<le> rc a s r j"
    proof (cases "r = i")
      case True
      then show ?thesis using fi j by simp
    next
      case False
      then have "r \<le> i - 1" "1 \<le> r" using r by auto
      then show ?thesis using cd(6)[of r j] j by simp
    qed
  qed
  have C: "\<forall>j\<in>{1..N}. v s ! j \<le> 0 \<and> (p s' ! j = 0 \<longrightarrow> v s ! j = 0)"
    using cd(7,8) zero by simp
  have D: "\<forall>r. i < r \<and> r \<le> N \<longrightarrow> u s ! r = 0" using cd(9) sd(1) by simp
  then have D': "\<forall>r. i + 1 < r \<and> r \<le> N \<longrightarrow> u s ! r = 0" by simp
  have "core_inv a N i s'"
    unfolding core_inv_def rceq
    unfolding fr
    by (intro conjI) (rule L[unfolded fr] L I A B C D')+
  then show ?thesis unfolding rows_inv_def using sd(2) D by (simp add: fr)
qed

lemma insert_row_inv:
  assumes r: "rows_inv a N k s" and k: "k < N" and b: "bounded a N"
  shows "\<exists>s' c. insert_row a N (k + 1) s = Some s' \<and> rows_inv a N (k + 1) s' \<and>
           exits_after a N (start_row N (k + 1) s) c \<and> c \<le> k + 1"
proof -
  let ?s0 = "start_row N (k + 1) s"
  note st = start_row_inv[OF r k]
  obtain c where c: "exits_after a N ?s0 c"
     "search_inv a N (k + 1) ((search_round a N ^^ c) ?s0)"
     "card (usedset N ((search_round a N ^^ c) ?s0)) = card (usedset N ?s0) + c"
    using search_terminates[OF st b] by blast
  define sE where "sE = (search_round a N ^^ c) ?s0"
  have se: "search a N ?s0 = Some sE" using search_exits[OF c(1)] by (simp add: sE_def)
  have ex: "\<not> continues sE" using c(1) unfolding exits_after_def sE_def by blast
  have si: "search_inv a N (k + 1) sE" using c(2) by (simp add: sE_def)
  have "usedset N ?s0 = {}" by (simp add: usedset_def start_row_simps)
  then have "c = card (usedset N sE)" using c(3) by (simp add: sE_def)
  then have cle: "c \<le> k + 1" using search_inv_used_card[OF si] by simp
  obtain f where f: "chain_ok a N sE f" using exit_state(3)[OF si ex] by blast
  obtain s' where s': "augment sE = Some s'" "aug_post a N (k + 1) sE s'"
    using augment_terminates[OF f exit_state(4)[OF si ex] exit_state(5)[OF si ex]] by blast
  have "rows_inv a N (k + 1) s'"
    using augment_rows_inv[OF si exit_state(2)[OF si ex] s'(2)] .
  moreover have "insert_row a N (k + 1) s = Some s'"
    unfolding insert_row_def se using s'(1) by simp
  ultimately show ?thesis using c(1) cle by blast
qed

lemma insert_rows_append:
  "insert_rows a N (xs @ ys) s =
     (case insert_rows a N xs s of None \<Rightarrow> None | Some s' \<Rightarrow> insert_rows a N ys s')"
  by (induction xs arbitrary: s) (simp_all split: option.splits)

lemma insert_rows_inv:
  assumes b: "bounded a N" and k: "k \<le> N"
  shows "\<exists>s. insert_rows a N [1..<k + 1] (init_state N) = Some s \<and> rows_inv a N k s"
  using k
proof (induction k)
  case 0
  then show ?case using rows_inv_init by simp
next
  case (Suc k)
  then obtain s where s: "insert_rows a N [1..<k + 1] (init_state N) = Some s" "rows_inv a N k s"
    by auto
  have kN: "k < N" using Suc.prems by simp
  obtain s' where s': "insert_row a N (k + 1) s = Some s'" "rows_inv a N (k + 1) s'"
    using insert_row_inv[OF s(2) kN b] by blast
  have e: "[1..<Suc k + 1] = [1..<k + 1] @ [k + 1]" by simp
  show ?case unfolding e insert_rows_append using s s' by simp
qed

lemma pad_nth: "i \<le> N \<Longrightarrow> j \<le> N \<Longrightarrow> pad n m cost N ! i ! j = pad_cell n m cost i j"
  by (simp add: pad_def less_Suc_eq_le del: upt_Suc)

lemma pad_bounded:
  assumes "small_costs n m cost"
  shows "bounded (pad n m cost N) N"
  unfolding bounded_def
proof (intro allI impI)
  fix r c assume h: "1 \<le> r \<and> r \<le> N \<and> 1 \<le> c \<and> c \<le> N"
  have "\<bar>pad_cell n m cost r c\<bar> \<le> BND_d"
  proof (cases "0 < r \<and> 0 < c \<and> int r \<le> n \<and> int c \<le> m")
    case True
    then have "int (r - 1) < n \<and> int (c - 1) < m" by auto
    then have "\<bar>cost (r - 1) (c - 1)\<bar> \<le> BND_d"
      using assms unfolding small_costs_def by blast
    then show ?thesis using True by (simp add: pad_cell_def)
  next
    case False
    have "pad_cell n m cost r c = PAD_d"
      unfolding pad_cell_def by (rule if_not_P) (rule False)
    then show ?thesis by (simp add: PAD_d_def BND_d_def)
  qed
  then show "\<bar>pad n m cost N ! r ! c\<bar> \<le> BND_d" using h by (simp add: pad_nth)
qed

lemma total_cost_fold:
  "fold (\<lambda>j r. if 0 < ps ! j \<and> int (ps ! j) \<le> n \<and> int j \<le> m
                  then r + cost (ps ! j - 1) (j - 1) else r) [1..<k + 1] r0
     = r0 + (\<Sum>j\<in>{1..k}. cell_cost n m cost ps j)"
proof (induction k)
  case 0
  show ?case by simp
next
  case (Suc k)
  have e: "[1..<Suc k + 1] = [1..<k + 1] @ [Suc k]" by simp
  have s: "(\<Sum>j\<in>{1..Suc k}. cell_cost n m cost ps j) =
       (\<Sum>j\<in>{1..k}. cell_cost n m cost ps j) + cell_cost n m cost ps (Suc k)"
    by simp
  show ?case unfolding e fold_append comp_def Suc.IH s
    by (simp add: cell_cost_def)
qed

lemma total_cost_sum:
  "total_cost n m cost N ps = (\<Sum>j\<in>{1..N}. cell_cost n m cost ps j)"
  unfolding total_cost_def total_cost_fold by simp

lemma clear_fold:
  "k \<le> length out \<Longrightarrow>
   length (fold (\<lambda>j out. out[j := - 1]) [0..<k] out) = length out \<and>
   (\<forall>j. fold (\<lambda>j out. out[j := - 1]) [0..<k] out ! j = (if j < k then - 1 else out ! j))"
proof (induction k)
  case 0
  show ?case by simp
next
  case (Suc k)
  then have IH: "length (fold (\<lambda>j out. out[j := - 1]) [0..<k] out) = length out"
    "\<And>j. fold (\<lambda>j out. out[j := - 1]) [0..<k] out ! j = (if j < k then - 1 else out ! j)"
    by simp_all
  show ?case using IH Suc.prems by (simp add: nth_list_update less_Suc_eq)
qed

lemma write_fold:
  "k \<le> length out \<Longrightarrow>
   length (fold (write_step n ps) [1..<k + 1] out) = length out \<and>
   (\<forall>j. fold (write_step n ps) [1..<k + 1] out ! j =
     (if j < k then (if 0 < ps ! (j + 1) \<and> int (ps ! (j + 1)) \<le> n
                    then int (ps ! (j + 1)) - 1 else out ! j) else out ! j))"
proof (induction k)
  case 0
  show ?case by simp
next
  case (Suc k)
  define w where "w = fold (write_step n ps) [1..<k + 1] out"
  have IH: "length w = length out"
    "\<And>j. w ! j = (if j < k then (if 0 < ps ! (j + 1) \<and> int (ps ! (j + 1)) \<le> n
                    then int (ps ! (j + 1)) - 1 else out ! j) else out ! j)"
    using Suc unfolding w_def by simp_all
  have e: "[1..<Suc k + 1] = [1..<k + 1] @ [Suc k]" by simp
  have st: "fold (write_step n ps) [1..<Suc k + 1] out = write_step n ps (Suc k) w"
    unfolding e w_def by simp
  have kl: "k < length w" using Suc.prems IH(1) by simp
  have wk: "w ! k = out ! k" using IH(2)[of k] by simp
  show ?case unfolding st
  proof (intro conjI allI)
    show "length (write_step n ps (Suc k) w) = length out"
      by (simp add: write_step_def IH(1))
    fix j
    show "write_step n ps (Suc k) w ! j =
        (if j < Suc k then (if 0 < ps ! (j + 1) \<and> int (ps ! (j + 1)) \<le> n
                    then int (ps ! (j + 1)) - 1 else out ! j) else out ! j)"
    proof (cases "j = k")
      case True
      then show ?thesis using kl wk by (simp add: write_step_def)
    next
      case False
      then have "write_step n ps (Suc k) w ! j = w ! j" by (simp add: write_step_def)
      then show ?thesis using False IH(2)[of j] by (simp add: less_Suc_eq)
    qed
  qed
qed

lemma write_match_nth:
  assumes "nat m \<le> length out"
  shows "length (write_match n m ps (clear_match m out)) = length out"
    and "j < nat m \<Longrightarrow> write_match n m ps (clear_match m out) ! j = job_entry n ps j"
    and "nat m \<le> j \<Longrightarrow> write_match n m ps (clear_match m out) ! j = out ! j"
proof -
  have c: "length (clear_match m out) = length out"
    "\<And>j. clear_match m out ! j = (if j < nat m then - 1 else out ! j)"
    using clear_fold[OF assms] unfolding clear_match_def by simp_all
  have l: "nat m \<le> length (clear_match m out)" using assms c by simp
  have w: "length (write_match n m ps (clear_match m out)) = length (clear_match m out)"
    "\<And>j. write_match n m ps (clear_match m out) ! j =
       (if j < nat m \<and> 0 < ps ! (j + 1) \<and> int (ps ! (j + 1)) \<le> n then int (ps ! (j + 1)) - 1
        else clear_match m out ! j)"
    using write_fold[OF l, of n ps] unfolding write_match_def write_step_def[abs_def] by simp_all
  show "length (write_match n m ps (clear_match m out)) = length out" using w c by simp
  show "j < nat m \<Longrightarrow> write_match n m ps (clear_match m out) ! j = job_entry n ps j"
    using w c by (simp add: job_entry_def)
  show "nat m \<le> j \<Longrightarrow> write_match n m ps (clear_match m out) ! j = out ! j"
    using w c by simp
qed

lemma rows_inv_full:
  assumes "rows_inv a N N s"
  shows "bij_betw ((!) (p s)) {1..N} {1..N}"
    and "\<And>j. j \<in> {1..N} \<Longrightarrow> rc a s (p s ! j) j = 0"
    and "\<And>r j. r \<in> {1..N} \<Longrightarrow> j \<in> {1..N} \<Longrightarrow> 0 \<le> rc a s r j"
proof -
  have c: "core_inv a N N s" using assms unfolding rows_inv_def by blast
  have "card (matched N s) = N" using core_card[OF c] .
  then have m: "matched N s = {1..N}"
    using matched_sub[of N s] by (simp add: card_subset_eq)
  have "inj_on ((!) (p s)) (matched N s)" "(!) (p s) ` matched N s = {1..N}"
    using c unfolding core_inv_def by blast+
  then show "bij_betw ((!) (p s)) {1..N} {1..N}" unfolding m bij_betw_def by blast
  show "\<And>j. j \<in> {1..N} \<Longrightarrow> rc a s (p s ! j) j = 0"
    using c unfolding core_inv_def m by blast
  show "\<And>r j. r \<in> {1..N} \<Longrightarrow> j \<in> {1..N} \<Longrightarrow> 0 \<le> rc a s r j"
    using c unfolding core_inv_def by blast
qed

lemma square_optimal:
  assumes bp: "bij_betw pf {1..N} {1..N}"
    and tight: "\<And>j. j \<in> {1..N} \<Longrightarrow> A (pf j) j = uf (pf j) + vf j"
    and feas: "\<And>r j. r \<in> {1..N} \<Longrightarrow> j \<in> {1..N} \<Longrightarrow> uf r + vf j \<le> A r j"
    and bq: "bij_betw q {1..N} {1..N}"
  shows "(\<Sum>j\<in>{1..N}. A (pf j) j) \<le> (\<Sum>j\<in>{1..N}. (A (q j) j :: real))"
proof -
  have "(\<Sum>j\<in>{1..N}. A (pf j) j) = (\<Sum>j\<in>{1..N}. uf (pf j) + vf j)"
    using tight by (intro sum.cong) simp_all
  also have "\<dots> = (\<Sum>j\<in>{1..N}. uf (pf j)) + (\<Sum>j\<in>{1..N}. vf j)"
    by (simp add: sum.distrib)
  also have "(\<Sum>j\<in>{1..N}. uf (pf j)) = (\<Sum>r\<in>{1..N}. uf r)"
    by (rule sum.reindex_bij_betw[OF bp])
  also have "(\<Sum>r\<in>{1..N}. uf r) = (\<Sum>j\<in>{1..N}. uf (q j))"
    by (rule sum.reindex_bij_betw[OF bq, symmetric])
  also have "(\<Sum>j\<in>{1..N}. uf (q j)) + (\<Sum>j\<in>{1..N}. vf j) = (\<Sum>j\<in>{1..N}. uf (q j) + vf j)"
    by (simp add: sum.distrib)
  also have "\<dots> \<le> (\<Sum>j\<in>{1..N}. A (q j) j)"
  proof (rule sum_mono)
    fix j assume j: "j \<in> {1..N}"
    then have "q j \<in> {1..N}" using bq by (auto simp: bij_betw_def)
    then show "uf (q j) + vf j \<le> A (q j) j" using feas j by blast
  qed
  finally show ?thesis .
qed

lemma search_round_frame:
  assumes "frame_ok N s"
  shows "frame_ok N (search_round a N s)" "p (search_round a N s) = p s"
proof -
  have len: "length (minv s) = N + 1" "length (way s) = N + 1" and wb: "\<And>j. j \<le> N \<Longrightarrow> way s ! j \<le> N"
    and j0: "j0 s \<le> N"
    using assms unfolding frame_ok_def by blast+
  define s1 where "s1 = s\<lparr>used := (used s)[j0 s := True]\<rparr>"
  define i0 where "i0 = p s ! j0 s"
  obtain s2 d j1 where r: "relax a N i0 s1 = (s2, d, j1)" by (metis prod_cases3)
  define s3 where "s3 = update d N s2"
  have i0s1: "p s1 ! j0 s1 = i0" by (simp add: s1_def i0_def)
  have "search_round a N s =
      (case relax a N (p s1 ! j0 s1) s1 of (s2, delta, j1) \<Rightarrow> (update delta N s2)\<lparr>j0 := j1\<rparr>)"
    by (simp add: search_round_def Let_def s1_def)
  then have sr: "search_round a N s = s3\<lparr>j0 := j1\<rparr>"
    by (simp add: i0s1 r s3_def)
  have RP: "relax_post a i0 s1 N s2 d j1"
    using relax_props[OF _ _ r] len by (simp add: s1_def)
  have fr2: "p s2 = p s" "length (way s2) = N + 1" "length (minv s2) = N + 1"
    using RP len unfolding relax_post_def by (simp_all add: s1_def)
  have wy2: "way s2 ! j =
        (if 1 \<le> j \<and> j \<le> N \<and> \<not> used s1 ! j \<and> rc a s1 i0 j < minv s1 ! j
         then j0 s1 else way s1 ! j)" for j
    using RP unfolding relax_post_def by blast
  have wb2: "way s2 ! j \<le> N" if "j \<le> N" for j
    unfolding wy2 using wb[OF that] j0 by (simp add: s1_def)
  have j1: "j1 \<le> N"
  proof -
    have "if j1 = 0 then d = INF_d
      else 1 \<le> j1 \<and> j1 \<le> N \<and> \<not> used s1 ! j1 \<and> d = minv s2 ! j1 \<and> d < INF_d"
      using RP unfolding relax_post_def by blast
    then show ?thesis by (cases "j1 = 0") simp_all
  qed
  have fr3: "p s3 = p s" "way s3 = way s2" "length (minv s3) = N + 1"
    using update_frame[of d N s2] fr2 by (simp_all add: s3_def)
  show "frame_ok N (search_round a N s)"
    unfolding sr frame_ok_def using fr3 fr2 wb2 j1 by simp
  show "p (search_round a N s) = p s" unfolding sr using fr3 by simp
qed

lemma search_frame:
  assumes "search a N s = Some s'"
  shows "frame_ok N s \<longrightarrow> frame_ok N s' \<and> p s' = p s \<and> \<not> continues s'"
proof (rule search.raw_induct[where P = "\<lambda>a N s s'. frame_ok N s \<longrightarrow>
          frame_ok N s' \<and> p s' = p s \<and> \<not> continues s'", OF _ assms])
  fix srch :: "real list list \<Rightarrow> nat \<Rightarrow> hstate \<Rightarrow> hstate option" and a N s y
  assume IH: "\<And>a N s y. srch a N s = Some y \<Longrightarrow>
       frame_ok N s \<longrightarrow> frame_ok N y \<and> p y = p s \<and> \<not> continues y"
    and eq: "(let s' = search_round a N s
              in if p s' ! j0 s' \<noteq> 0 then srch a N s' else Some s') = Some y"
  show "frame_ok N s \<longrightarrow> frame_ok N y \<and> p y = p s \<and> \<not> continues y"
  proof
    assume f: "frame_ok N s"
    define s1 where "s1 = search_round a N s"
    have f1: "frame_ok N s1" "p s1 = p s"
      using search_round_frame[OF f] by (simp_all add: s1_def)
    show "frame_ok N y \<and> p y = p s \<and> \<not> continues y"
    proof (cases "continues s1")
      case True
      then have "srch a N s1 = Some y"
        using eq by (simp add: Let_def s1_def continues_def)
      then show ?thesis using IH[of a N s1 y] f1 by simp
    next
      case False
      then have "y = s1" using eq by (simp add: Let_def s1_def continues_def)
      then show ?thesis using f1 False by simp
    qed
  qed
qed

lemma augment_perm:
  assumes "augment s = Some s'"
  shows "perm_inv N i s \<and> (\<forall>j\<le>N. way s ! j \<le> N) \<longrightarrow>
     perm_inv N i s' \<and> j0 s' = 0 \<and> way s' = way s"
proof (rule augment.raw_induct[where P = "\<lambda>s s'. perm_inv N i s \<and> (\<forall>j\<le>N. way s ! j \<le> N) \<longrightarrow>
     perm_inv N i s' \<and> j0 s' = 0 \<and> way s' = way s", OF _ assms])
  fix aug :: "hstate \<Rightarrow> hstate option" and s y
  assume IH: "\<And>s y. aug s = Some y \<Longrightarrow> perm_inv N i s \<and> (\<forall>j\<le>N. way s ! j \<le> N) \<longrightarrow>
     perm_inv N i y \<and> j0 y = 0 \<and> way y = way s"
    and eq: "(let s' = augment_step s in if j0 s' \<noteq> 0 then aug s' else Some s') = Some y"
  show "perm_inv N i s \<and> (\<forall>j\<le>N. way s ! j \<le> N) \<longrightarrow>
     perm_inv N i y \<and> j0 y = 0 \<and> way y = way s"
  proof
    assume h: "perm_inv N i s \<and> (\<forall>j\<le>N. way s ! j \<le> N)"
    define s1 where "s1 = augment_step s"
    have j0: "j0 s \<le> N" using h unfolding perm_inv_def by blast
    then have "way s ! j0 s \<le> N" using h by blast
    then have p1: "perm_inv N i s1" unfolding s1_def using augment_step_perm h by blast
    have w1: "way s1 = way s" by (simp add: s1_def augment_step_simps)
    show "perm_inv N i y \<and> j0 y = 0 \<and> way y = way s"
    proof (cases "j0 s1 \<noteq> 0")
      case True
      then have "aug s1 = Some y" using eq by (simp add: Let_def s1_def)
      then show ?thesis using IH[of s1 y] p1 w1 h by simp
    next
      case False
      then have "y = s1" using eq by (simp add: Let_def s1_def)
      then show ?thesis using p1 w1 False by simp
    qed
  qed
qed

lemma insert_row_match:
  assumes ir: "insert_row a N (k + 1) s = Some s'" and mi: "match_inv N k s"
  shows "match_inv N (k + 1) s'"
proof -
  let ?s0 = "start_row N (k + 1) s"
  obtain sE where se: "search a N ?s0 = Some sE" and au: "augment sE = Some s'"
    using ir unfolding insert_row_def by (auto split: option.splits)
  have len: "length (p s) = N + 1" "length (way s) = N + 1" and wb: "\<forall>j\<le>N. way s ! j \<le> N"
    and inj: "inj_on ((!) (p s)) (matched N s)" and im: "(!) (p s) ` matched N s = {1..k}"
    using mi unfolding match_inv_def by blast+
  have f0: "frame_ok N ?s0"
    unfolding frame_ok_def using len wb by (simp add: start_row_simps)
  have fE: "frame_ok N sE" "p sE = p ?s0" "\<not> continues sE"
    using search_frame[OF se] f0 by simp_all
  have pE: "p sE = (p s)[0 := k + 1]" using fE(2) by (simp add: start_row_simps)
  have pj: "p sE ! j = p s ! j" if "1 \<le> j" for j using that by (simp add: pE)
  have p0: "p sE ! 0 = k + 1" using len by (simp add: pE)
  have pj0: "p sE ! j0 sE = 0" using fE(3) by (simp add: continues_def)
  have mE: "matched N sE = matched N s" using pj by (auto simp: matched_def)
  have pend: "pending N sE = insert 0 (matched N s)"
    unfolding mE[symmetric] using p0 pj0 by (auto simp: pending_def matched_def)
  have injE: "inj_on ((!) (p sE)) (matched N s)"
  proof -
    have "\<And>x. x \<in> matched N s \<Longrightarrow> p sE ! x = p s ! x" using pj by (simp add: matched_def)
    then show ?thesis using inj by (simp add: inj_on_def)
  qed
  have imE: "(!) (p sE) ` matched N s = {1..k}"
  proof -
    have "(!) (p sE) ` matched N s = (!) (p s) ` matched N s"
      using pj by (auto simp: matched_def image_iff)
    then show ?thesis using im by simp
  qed
  have "p sE ! 0 \<notin> (!) (p sE) ` matched N s" using imE p0 by simp
  moreover have "matched N s - {0} = matched N s" by (auto simp: matched_def)
  ultimately have i1: "inj_on ((!) (p sE)) (insert 0 (matched N s))"
    using injE by (simp add: inj_on_insert)
  have i2: "(!) (p sE) ` insert 0 (matched N s) = {1..k + 1}"
    using imE p0 by auto
  have piE: "perm_inv N (k + 1) sE"
    unfolding perm_inv_def pend using i1 i2 fE(1) len pE
    by (simp add: frame_ok_def)
  have wbE: "\<forall>j\<le>N. way sE ! j \<le> N" "length (way sE) = N + 1"
    using fE(1) unfolding frame_ok_def by blast+
  have fin: "perm_inv N (k + 1) s'" "j0 s' = 0" "way s' = way sE"
    using augment_perm[OF au, of N "k + 1"] piE wbE(1) by simp_all
  have m': "pending N s' = matched N s'"
    using fin(2) by (auto simp: pending_def matched_def)
  show ?thesis
    unfolding match_inv_def
    using fin(1) wbE unfolding perm_inv_def m' fin(3) by simp
qed

lemma match_inv_init: "match_inv N 0 (init_state N)"
proof -
  have m: "matched N (init_state N) = {}"
    by (auto simp: matched_def init_state_simps)
  show ?thesis
    unfolding match_inv_def m by (simp add: init_state_simps)
qed

lemma insert_rows_match:
  "insert_rows a N [1..<k + 1] (init_state N) = Some s \<Longrightarrow> match_inv N k s"
proof (induction k arbitrary: s)
  case 0
  then have "s = init_state N" by simp
  then show ?case using match_inv_init by simp
next
  case (Suc k)
  have e: "[1..<Suc k + 1] = [1..<k + 1] @ [k + 1]" by simp
  obtain s1 where s1: "insert_rows a N [1..<k + 1] (init_state N) = Some s1"
    "insert_row a N (k + 1) s1 = Some s"
    using Suc.prems unfolding e insert_rows_append by (auto split: option.splits)
  show ?case using insert_row_match[OF s1(2) Suc.IH[OF s1(1)]] by simp
qed

lemma match_inv_full:
  assumes "match_inv N N s"
  shows "bij_betw ((!) (p s)) {1..N} {1..N}"
proof -
  have i: "inj_on ((!) (p s)) (matched N s)" "(!) (p s) ` matched N s = {1..N}"
    using assms unfolding match_inv_def by blast+
  then have "card (matched N s) = card {1..N}" by (metis card_image)
  then have m: "matched N s = {1..N}"
    using matched_sub[of N s] by (simp add: card_subset_eq)
  show ?thesis using i unfolding m bij_betw_def by blast
qed

lemma write_match_map:
  assumes "length out = nat m"
  shows "write_match n m ps (clear_match m out) = map (job_entry n ps) [0..<nat m]"
proof (rule nth_equalityI)
  have l: "nat m \<le> length out" using assms by simp
  show "length (write_match n m ps (clear_match m out)) = length (map (job_entry n ps) [0..<nat m])"
    using write_match_nth(1)[OF l] assms by simp
  fix j assume "j < length (write_match n m ps (clear_match m out))"
  then have "j < nat m" using write_match_nth(1)[OF l] assms by simp
  then show "write_match n m ps (clear_match m out) ! j = map (job_entry n ps) [0..<nat m] ! j"
    using write_match_nth(2)[OF l] by simp
qed

lemma hungarian_Some:
  assumes "insert_rows (pad n m cost (nat (max n m))) (nat (max n m))
             [1..<nat (max n m) + 1] (init_state (nat (max n m))) = Some s"
    and "length out = nat m"
  shows "hungarian n m cost out =
           Some (total_cost n m cost (nat (max n m)) (p s), map (job_entry n (p s)) [0..<nat m])"
  unfolding hungarian_def Let_def assms(1) using write_match_map[OF assms(2)] by simp

lemma small_costs_returns:
  assumes "small_costs n m cost"
  shows "\<exists>s. insert_rows (pad n m cost (nat (max n m))) (nat (max n m))
             [1..<nat (max n m) + 1] (init_state (nat (max n m))) = Some s \<and>
             rows_inv (pad n m cost (nat (max n m))) (nat (max n m)) (nat (max n m)) s"
  using insert_rows_inv[OF pad_bounded[OF assms], of "nat (max n m)"] by simp

lemma demo_run: "hungarian 3 4 demo_cost [0, 0, 0, 0] = Some (51 / 5, [1, 0, 2, - 1])"
  by code_simp

text \<open>
  Claim C2, as the code behaves: on the 3 by 4 matrix of the demonstration driver the solver
  returns total cost 10.2 (not 9.3), with job 0 given to worker 1 (6.2), job 1 to worker 0
  (2.5), job 2 to worker 2 (1.5) and job 3 left unassigned, whatever the output array held
  before the call.
\<close>

theorem demo_result:
  "length out = 4 \<Longrightarrow> hungarian 3 4 demo_cost out = Some (51 / 5, [1, 0, 2, - 1])"
proof -
  assume l: "length out = 4"
  have "map_option p (insert_rows (pad 3 4 demo_cost 4) 4 [1..<4 + 1] (init_state 4))
          = Some [4, 2, 1, 3, 4]"
    by code_simp
  then obtain s where s: "insert_rows (pad 3 4 demo_cost 4) 4 [1..<4 + 1] (init_state 4) = Some s"
    and ps: "p s = [4, 2, 1, 3, 4]"
    by auto
  have t: "total_cost 3 4 demo_cost 4 [4, 2, 1, 3, 4] = 51 / 5" by code_simp
  have w: "map (job_entry 3 [4, 2, 1, 3, 4]) [0..<4] = [1, 0, 2, - 1]" by code_simp
  have "hungarian 3 4 demo_cost out =
           Some (total_cost 3 4 demo_cost (nat (max 3 4)) (p s), map (job_entry 3 (p s)) [0..<nat 4])"
    by (rule hungarian_Some) (use s l in simp_all)
  then show ?thesis using t w by (simp add: ps)
qed

text \<open>
  Witness for C2: the demonstration call with an output array of four zeros.
\<close>

theorem demo_result_witness:
  "length [0, 0, 0, 0 :: int] = 4 \<and>
   hungarian 3 4 demo_cost [0, 0, 0, 0] = Some (51 / 5, [1, 0, 2, - 1])"
  using demo_result [of "[0, 0, 0, 0]"] by simp

text \<open>
  Counterexample to C2 as stated: the total cost returned on the demonstration matrix is
  not 9.3.
\<close>

theorem demo_not_nine_point_three:
  "\<not> (\<exists>out'. hungarian 3 4 demo_cost [0, 0, 0, 0] = Some (93 / 10, out'))"
  using demo_run by simp




lemma hungarian_call_ok:
  assumes "max n m < INT_MAX"
  shows "hungarian_call True n m cost out = map_option Inr (hungarian n m cost out)"
proof -
  have "\<not> INT_MAX \<le> max n m" using assms by linarith
  then show ?thesis unfolding hungarian_call_def by simp
qed

lemma degenerate_run:
  "(0 \<le> m \<longrightarrow> length out = nat m \<longrightarrow>
      hungarian 0 m cost out = Some (0, replicate (nat m) (- 1))) \<and>
   hungarian n 0 cost [] = Some (0, [])"
proof
  show "0 \<le> m \<longrightarrow> length out = nat m \<longrightarrow>
      hungarian 0 m cost out = Some (0, replicate (nat m) (- 1))"
  proof (intro impI)
    assume m: "0 \<le> m" and l: "length out = nat m"
    define N where "N = nat (max 0 m)"
    have sc: "small_costs 0 m cost" unfolding small_costs_def by simp
    obtain s where s: "insert_rows (pad 0 m cost N) N [1..<N + 1] (init_state N) = Some s"
      using small_costs_returns[OF sc] unfolding N_def by blast
    have c0: "cell_cost 0 m cost (p s) j = 0" for j by (simp add: cell_cost_def)
    have t: "total_cost 0 m cost N (p s) = 0"
      unfolding total_cost_sum by (simp add: c0)
    have "job_entry 0 (p s) = (\<lambda>j. - 1)" by (auto simp: job_entry_def fun_eq_iff)
    then have w: "map (job_entry 0 (p s)) [0..<nat m] = replicate (nat m) (- 1)"
      by (simp add: map_replicate_const)
    show "hungarian 0 m cost out = Some (0, replicate (nat m) (- 1))"
      using hungarian_Some[OF s[unfolded N_def] l] t w unfolding N_def by simp
  qed
  show "hungarian n 0 cost [] = Some (0, [])"
  proof -
    define N where "N = nat (max n 0)"
    have sc: "small_costs n 0 cost" unfolding small_costs_def by simp
    obtain s where s: "insert_rows (pad n 0 cost N) N [1..<N + 1] (init_state N) = Some s"
      using small_costs_returns[OF sc] unfolding N_def by blast
    have c0: "cell_cost n 0 cost (p s) j = 0" if "1 \<le> j" for j
      using that by (simp add: cell_cost_def)
    have t: "total_cost n 0 cost N (p s) = 0"
      unfolding total_cost_sum by (simp add: c0)
    show ?thesis
      using hungarian_Some[OF s[unfolded N_def], of "[]"] t unfolding N_def by simp
  qed
qed

text \<open>
  Claim C5, as amended: let every allocation of the call succeed.  With no workers and
  \<open>0 \<le> m < INT_MAX\<close> jobs the call returns total cost 0 and marks all \<open>m\<close> jobs unassigned;
  with no jobs and \<open>n < INT_MAX\<close> workers it returns total cost 0 and an empty assignment.
  In both cases the call returns a value and no undefined behaviour occurs.
\<close>

theorem degenerate_dimensions:
  "(0 \<le> m \<and> m < INT_MAX \<and> length out = nat m \<longrightarrow>
      hungarian_call True 0 m cost out = Some (Inr (0, replicate (nat m) (- 1)))) \<and>
   (n < INT_MAX \<longrightarrow> hungarian_call True n 0 cost [] = Some (Inr (0, [])))"
proof
  show "0 \<le> m \<and> m < INT_MAX \<and> length out = nat m \<longrightarrow>
      hungarian_call True 0 m cost out = Some (Inr (0, replicate (nat m) (- 1)))"
  proof
    assume h: "0 \<le> m \<and> m < INT_MAX \<and> length out = nat m"
    then have "max 0 m < INT_MAX" by linarith
    then have "hungarian_call True 0 m cost out = map_option Inr (hungarian 0 m cost out)"
      by (rule hungarian_call_ok)
    moreover have "hungarian 0 m cost out = Some (0, replicate (nat m) (- 1))"
      using degenerate_run[of m out cost] h by blast
    ultimately show "hungarian_call True 0 m cost out = Some (Inr (0, replicate (nat m) (- 1)))"
      by simp
  qed
  show "n < INT_MAX \<longrightarrow> hungarian_call True n 0 cost [] = Some (Inr (0, []))"
  proof
    assume "n < INT_MAX"
    then have "max n 0 < INT_MAX" by (simp add: INT_MAX_def)
    then have "hungarian_call True n 0 cost [] = map_option Inr (hungarian n 0 cost [])"
      by (rule hungarian_call_ok)
    moreover have "hungarian n 0 cost [] = Some (0, [])"
      using degenerate_run[of 0 "[]" cost n] by blast
    ultimately show "hungarian_call True n 0 cost [] = Some (Inr (0, []))" by simp
  qed
qed

text \<open>
  Witness for C5: three jobs and no worker; three workers and no job.
\<close>

theorem degenerate_dimensions_witness:
  "hungarian_call True 0 3 (\<lambda>i j. 1) [7, 7, 7] = Some (Inr (0, [- 1, - 1, - 1])) \<and>
   hungarian_call True 3 0 (\<lambda>i j. 1) [] = Some (Inr (0, []))"
  using degenerate_dimensions [of 3 "[7, 7, 7]" "\<lambda>i j. 1" 3]
  by (simp add: numeral_3_eq_3 INT_MAX_def)

text \<open>
  Counterexample to C5 as stated: with \<open>m = 0\<close> jobs and \<open>n = INT_MAX\<close> workers the size
  \<open>N + 1\<close> of line 18 overflows \<^verbatim>\<open>int\<close>; the call has undefined behaviour and does not
  complete with total cost 0 and an empty assignment.  The same happens with \<open>n = 0\<close>
  workers and \<open>m = INT_MAX\<close> jobs.
\<close>

theorem degenerate_dimension_overflows:
  "hungarian_call True 2147483647 0 (\<lambda>i j. 0) [] = Some (Inl Signed_overflow) \<and>
   hungarian_call True 2147483647 0 (\<lambda>i j. 0) [] \<noteq> Some (Inr (0, [])) \<and>
   hungarian_call True 0 2147483647 (\<lambda>i j. 0) (replicate 2147483647 0)
     = Some (Inl Signed_overflow)"
  by (simp add: hungarian_call_def INT_MAX_def)

lemma hungarian_SomeD:
  assumes "hungarian n m cost out = Some (t, out')"
  obtains s where
    "insert_rows (pad n m cost (nat (max n m))) (nat (max n m))
       [1..<nat (max n m) + 1] (init_state (nat (max n m))) = Some s"
    "t = total_cost n m cost (nat (max n m)) (p s)"
    "out' = write_match n m (p s) (clear_match m out)"
    "bij_betw ((!) (p s)) {1..nat (max n m)} {1..nat (max n m)}"
proof -
  obtain s where s: "insert_rows (pad n m cost (nat (max n m))) (nat (max n m))
       [1..<nat (max n m) + 1] (init_state (nat (max n m))) = Some s"
    and r: "t = total_cost n m cost (nat (max n m)) (p s)"
       "out' = write_match n m (p s) (clear_match m out)"
    using assms unfolding hungarian_def Let_def by (auto split: option.splits)
  have "bij_betw ((!) (p s)) {1..nat (max n m)} {1..nat (max n m)}"
    using match_inv_full[OF insert_rows_match[OF s]] .
  then show ?thesis using that s r by blast
qed

lemma small_costs_hungarian:
  assumes "small_costs n m cost"
  shows "hungarian n m cost out \<noteq> None"
proof -
  obtain s where "insert_rows (pad n m cost (nat (max n m))) (nat (max n m))
             [1..<nat (max n m) + 1] (init_state (nat (max n m))) = Some s"
    using small_costs_returns[OF assms] by blast
  then show ?thesis unfolding hungarian_def Let_def by simp
qed

lemma job_entry_range:
  "job_entry n ps j = - 1 \<or> (0 \<le> job_entry n ps j \<and> job_entry n ps j < n)"
  by (auto simp: job_entry_def)

lemma job_entry_inj:
  assumes b: "bij_betw ((!) ps) {1..N} {1..N}" and j: "j < N" "j' < N"
    and e: "job_entry n ps j = job_entry n ps j'" "job_entry n ps j \<noteq> - 1"
  shows "j = j'"
proof -
  have c: "0 < ps ! (j + 1) \<and> int (ps ! (j + 1)) \<le> n"
    using e(2) unfolding job_entry_def by presburger
  then have v: "job_entry n ps j = int (ps ! (j + 1)) - 1" by (simp add: job_entry_def)
  have c': "0 < ps ! (j' + 1) \<and> int (ps ! (j' + 1)) \<le> n"
    using e unfolding job_entry_def[of n ps j'] by presburger
  then have v': "job_entry n ps j' = int (ps ! (j' + 1)) - 1" by (simp add: job_entry_def)
  have "ps ! (j + 1) = ps ! (j' + 1)" using e(1) v v' by simp
  moreover have "j + 1 \<in> {1..N}" "j' + 1 \<in> {1..N}" using j by simp_all
  ultimately have "j + 1 = j' + 1" using b unfolding bij_betw_def inj_on_def by blast
  then show ?thesis by simp
qed

lemma small_costs_demo: "small_costs 3 4 demo_cost"
  unfolding small_costs_def
proof (intro allI impI)
  fix i j :: nat assume "int i < 3 \<and> int j < 4"
  then have "i \<in> {0, 1, 2}" "j \<in> {0, 1, 2, 3}" by auto
  then show "\<bar>demo_cost i j\<bar> \<le> BND_d"
    by (auto simp: demo_cost_def matrix_def BND_d_def)
qed

text \<open>
  Claim C3: every entry of the returned assignment is the marker -1 or a worker index in
  \<open>[0, n)\<close>, and no worker index occurs at two positions.  This holds for every cost matrix
  on which the call returns; the call does return whenever all costs are at most
  \<open>2 * 10^17\<close> in magnitude.
\<close>

theorem assignment_is_matching:
  assumes "nat m \<le> length out"
  shows "(small_costs n m cost \<longrightarrow> hungarian n m cost out \<noteq> None) \<and>
     (\<forall>t out'. hungarian n m cost out = Some (t, out') \<longrightarrow>
        (\<forall>j<nat m. out' ! j = - 1 \<or> (0 \<le> out' ! j \<and> out' ! j < n)) \<and>
        (\<forall>j<nat m. \<forall>j'<nat m. out' ! j = out' ! j' \<and> out' ! j \<noteq> - 1 \<longrightarrow> j = j'))"
proof -
  have A: "small_costs n m cost \<longrightarrow> hungarian n m cost out \<noteq> None"
    using small_costs_hungarian by blast
  have B: "(\<forall>j<nat m. out' ! j = - 1 \<or> (0 \<le> out' ! j \<and> out' ! j < n)) \<and>
        (\<forall>j<nat m. \<forall>j'<nat m. out' ! j = out' ! j' \<and> out' ! j \<noteq> - 1 \<longrightarrow> j = j')"
    if h: "hungarian n m cost out = Some (t, out')" for t out'
  proof -
    obtain s :: hstate where s: "out' = write_match n m (p s) (clear_match m out)"
      "bij_betw ((!) (p s)) {1..nat (max n m)} {1..nat (max n m)}"
      using hungarian_SomeD[OF h] by blast
    have e: "out' ! j = job_entry n (p s) j" if "j < nat m" for j
      using write_match_nth(2)[OF assms that] s(1) by simp
    have 1: "\<forall>j<nat m. out' ! j = - 1 \<or> (0 \<le> out' ! j \<and> out' ! j < n)"
      using e job_entry_range by simp
    have 2: "\<forall>j<nat m. \<forall>j'<nat m. out' ! j = out' ! j' \<and> out' ! j \<noteq> - 1 \<longrightarrow> j = j'"
    proof (intro allI impI)
      fix j j' assume j: "j < nat m" "j' < nat m" and q: "out' ! j = out' ! j' \<and> out' ! j \<noteq> - 1"
      have jj: "j < nat (max n m)" "j' < nat (max n m)" using j by simp_all
      have "job_entry n (p s) j = job_entry n (p s) j'" "job_entry n (p s) j \<noteq> - 1"
        using q e[OF j(1)] e[OF j(2)] by simp_all
      then show "j = j'" by (rule job_entry_inj[OF s(2) jj])
    qed
    show ?thesis by (rule conjI 1 2)+
  qed
  show ?thesis using A B by blast
qed

text \<open>
  Witness for C3: the demonstration instance, whose costs are small and on which the call
  returns the assignment 1, 0, 2, -1.
\<close>

theorem assignment_is_matching_witness:
  "nat 4 \<le> length [0, 0, 0, 0 :: int] \<and>
   hungarian 3 4 demo_cost [0, 0, 0, 0] \<noteq> None \<and>
   hungarian 3 4 demo_cost [0, 0, 0, 0] = Some (51 / 5, [1, 0, 2, - 1]) \<and>
   0 \<le> [1, 0, 2, - 1 :: int] ! 2 \<and> [1, 0, 2, - 1 :: int] ! 2 < 3 \<and>
   [1, 0, 2, - 1 :: int] ! 0 \<noteq> [1, 0, 2, - 1] ! 1"
proof -
  have l: "nat 4 \<le> length [0, 0, 0, 0 :: int]" by simp
  note th = assignment_is_matching [OF l, of 3 demo_cost]
  have 1: "hungarian 3 4 demo_cost [0, 0, 0, 0] \<noteq> None"
    using th small_costs_demo by blast
  have 2: "\<forall>j<nat 4. [1, 0, 2, - 1 :: int] ! j = - 1 \<or>
             (0 \<le> [1, 0, 2, - 1 :: int] ! j \<and> [1, 0, 2, - 1 :: int] ! j < 3)"
    using th demo_run by blast
  have 3: "\<forall>j<nat 4. \<forall>j'<nat 4. [1, 0, 2, - 1 :: int] ! j = [1, 0, 2, - 1] ! j' \<and>
             [1, 0, 2, - 1 :: int] ! j \<noteq> - 1 \<longrightarrow> j = j'"
    using th demo_run by blast
  have "(2 :: nat) < nat 4" by simp
  from 2[rule_format, OF this] have 4: "0 \<le> [1, 0, 2, - 1 :: int] ! 2 \<and> [1, 0, 2, - 1 :: int] ! 2 < 3"
    by simp
  have "(0 :: nat) < nat 4" "(1 :: nat) < nat 4" by simp_all
  from 3[rule_format, OF this] have 5: "[1, 0, 2, - 1 :: int] ! 0 \<noteq> [1, 0, 2, - 1] ! 1"
    by auto
  show ?thesis using l 1 demo_run 4 5 by blast
qed

text \<open>
  Claim C10: for \<open>m \<ge> 1\<close> every position \<open>j < m\<close> of \<^verbatim>\<open>match_out\<close> is written: what it holds
  after the call does not depend on what it held before, and it is -1 or a worker index
  in \<open>[0, n)\<close>, so the marker of an unassigned job is exactly -1.  Positions from \<open>m\<close> on
  are left as they were.
\<close>

theorem match_out_fully_written:
  assumes "1 \<le> m" and "nat m \<le> length out1" and "nat m \<le> length out2"
  shows "(small_costs n m cost \<longrightarrow> hungarian n m cost out1 \<noteq> None) \<and>
     (\<forall>t1 o1 t2 o2. hungarian n m cost out1 = Some (t1, o1) \<and>
                     hungarian n m cost out2 = Some (t2, o2) \<longrightarrow>
        t1 = t2 \<and> length o1 = length out1 \<and>
        (\<forall>j<nat m. o1 ! j = o2 ! j \<and> (o1 ! j = - 1 \<or> (0 \<le> o1 ! j \<and> o1 ! j < n))) \<and>
        (\<forall>j\<ge>nat m. o1 ! j = out1 ! j))"
proof -
  have A: "small_costs n m cost \<longrightarrow> hungarian n m cost out1 \<noteq> None"
    using small_costs_hungarian by blast
  have B: "t1 = t2 \<and> length o1 = length out1 \<and>
        (\<forall>j<nat m. o1 ! j = o2 ! j \<and> (o1 ! j = - 1 \<or> (0 \<le> o1 ! j \<and> o1 ! j < n))) \<and>
        (\<forall>j\<ge>nat m. o1 ! j = out1 ! j)"
    if h: "hungarian n m cost out1 = Some (t1, o1) \<and> hungarian n m cost out2 = Some (t2, o2)"
    for t1 o1 t2 o2
  proof -
    obtain s1 where s1: "insert_rows (pad n m cost (nat (max n m))) (nat (max n m))
         [1..<nat (max n m) + 1] (init_state (nat (max n m))) = Some s1"
      "t1 = total_cost n m cost (nat (max n m)) (p s1)"
      "o1 = write_match n m (p s1) (clear_match m out1)"
      using hungarian_SomeD[of n m cost out1 t1 o1] h by blast
    obtain s2 where s2: "insert_rows (pad n m cost (nat (max n m))) (nat (max n m))
         [1..<nat (max n m) + 1] (init_state (nat (max n m))) = Some s2"
      "t2 = total_cost n m cost (nat (max n m)) (p s2)"
      "o2 = write_match n m (p s2) (clear_match m out2)"
      using hungarian_SomeD[of n m cost out2 t2 o2] h by blast
    have eq: "s2 = s1" using s1(1) s2(1) by simp
    have 1: "t1 = t2" using s1(2) s2(2) eq by simp
    have 2: "length o1 = length out1" using write_match_nth(1)[OF assms(2)] s1(3) by simp
    have 3: "\<forall>j<nat m. o1 ! j = o2 ! j \<and> (o1 ! j = - 1 \<or> (0 \<le> o1 ! j \<and> o1 ! j < n))"
    proof (intro allI impI)
      fix j assume j: "j < nat m"
      have "o1 ! j = job_entry n (p s1) j" using write_match_nth(2)[OF assms(2) j] s1(3) by simp
      moreover have "o2 ! j = job_entry n (p s1) j"
        using write_match_nth(2)[OF assms(3) j] s2(3) eq by simp
      ultimately show "o1 ! j = o2 ! j \<and> (o1 ! j = - 1 \<or> (0 \<le> o1 ! j \<and> o1 ! j < n))"
        using job_entry_range[of n "p s1" j] by simp
    qed
    have 4: "\<forall>j\<ge>nat m. o1 ! j = out1 ! j"
      using write_match_nth(3)[OF assms(2)] s1(3) by simp
    show ?thesis by (rule conjI 1 2 3 4)+
  qed
  show ?thesis using A B by blast
qed

lemma demo_run_longer:
  "hungarian 3 4 demo_cost [7, 7, 7, 7, 7] = Some (51 / 5, [1, 0, 2, - 1, 7])"
  by code_simp

text \<open>
  Witness for C10: the demonstration instance called once with an array of four zeros and
  once with an array of five sevens.
\<close>

theorem match_out_fully_written_witness:
  "(1 :: int) \<le> 4 \<and> nat 4 \<le> length [7, 7, 7, 7, 7 :: int] \<and> nat 4 \<le> length [0, 0, 0, 0 :: int] \<and>
   hungarian 3 4 demo_cost [7, 7, 7, 7, 7] \<noteq> None \<and>
   hungarian 3 4 demo_cost [7, 7, 7, 7, 7] = Some (51 / 5, [1, 0, 2, - 1, 7]) \<and>
   hungarian 3 4 demo_cost [0, 0, 0, 0] = Some (51 / 5, [1, 0, 2, - 1]) \<and>
   [1, 0, 2, - 1, 7 :: int] ! 3 = [1, 0, 2, - 1] ! 3 \<and>
   [1, 0, 2, - 1, 7 :: int] ! 4 = [7, 7, 7, 7, 7] ! 4"
proof -
  have l: "(1 :: int) \<le> 4" "nat 4 \<le> length [7, 7, 7, 7, 7 :: int]" "nat 4 \<le> length [0, 0, 0, 0 :: int]"
    by simp_all
  note th = match_out_fully_written [OF l, of 3 demo_cost]
  have 1: "hungarian 3 4 demo_cost [7, 7, 7, 7, 7] \<noteq> None"
    using th small_costs_demo by blast
  have 2: "\<forall>j<nat 4. [1, 0, 2, - 1, 7 :: int] ! j = [1, 0, 2, - 1] ! j \<and>
              ([1, 0, 2, - 1, 7 :: int] ! j = - 1 \<or>
               (0 \<le> [1, 0, 2, - 1, 7 :: int] ! j \<and> [1, 0, 2, - 1, 7 :: int] ! j < 3))"
    using th demo_run demo_run_longer by blast
  have 3: "\<forall>j\<ge>nat 4. [1, 0, 2, - 1, 7 :: int] ! j = [7, 7, 7, 7, 7] ! j"
    using th demo_run demo_run_longer by blast
  have "(3 :: nat) < nat 4" by simp
  from 2[rule_format, OF this] have 4: "[1, 0, 2, - 1, 7 :: int] ! 3 = [1, 0, 2, - 1] ! 3"
    by blast
  have "nat 4 \<le> (4 :: nat)" by simp
  from 3[rule_format, OF this] have 5: "[1, 0, 2, - 1, 7 :: int] ! 4 = [7, 7, 7, 7, 7] ! 4" .
  show ?thesis using l 1 demo_run demo_run_longer 4 5 by blast
qed

lemma integer_small:
  assumes "integer_costs n m cost"
  shows "small_costs n m cost"
  unfolding small_costs_def
proof (intro allI impI)
  fix i j assume "int i < n \<and> int j < m"
  then have "\<bar>cost i j\<bar> \<le> 1000000" using assms unfolding integer_costs_def by blast
  then show "\<bar>cost i j\<bar> \<le> BND_d" by (simp add: BND_d_def)
qed

lemma job_entry_assigned:
  assumes b: "bij_betw ((!) ps) {1..N} {1..N}" and j: "j < N"
  shows "(0 \<le> job_entry n ps j \<and> job_entry n ps j < n) \<longleftrightarrow> int (ps ! (j + 1)) \<le> n"
    and "job_entry n ps j = - 1 \<longleftrightarrow> \<not> int (ps ! (j + 1)) \<le> n"
proof -
  have "j + 1 \<in> {1..N}" using j by simp
  then have "ps ! (j + 1) \<in> {1..N}" using b unfolding bij_betw_def by blast
  then have pos: "0 < ps ! (j + 1)" by simp
  show "(0 \<le> job_entry n ps j \<and> job_entry n ps j < n) \<longleftrightarrow> int (ps ! (j + 1)) \<le> n"
    using pos by (auto simp: job_entry_def)
  show "job_entry n ps j = - 1 \<longleftrightarrow> \<not> int (ps ! (j + 1)) \<le> n"
    using pos by (auto simp: job_entry_def)
qed

lemma count_real_rows:
  assumes b: "bij_betw ((!) ps) {1..N} {1..N}" and k: "k \<le> N"
  shows "card {j. j < N \<and> ps ! (j + 1) \<le> k} = k"
proof -
  let ?A = "{j. j < N \<and> ps ! (j + 1) \<le> k}"
  have inj: "inj_on ((!) ps) {1..N}" and im: "(!) ps ` {1..N} = {1..N}"
    using b unfolding bij_betw_def by blast+
  have "inj_on (\<lambda>j. ps ! (j + 1)) ?A"
  proof (rule inj_onI)
    fix x y assume "x \<in> ?A" "y \<in> ?A" "ps ! (x + 1) = ps ! (y + 1)"
    then have "x + 1 \<in> {1..N}" "y + 1 \<in> {1..N}" "ps ! (x + 1) = ps ! (y + 1)" by simp_all
    then have "x + 1 = y + 1" using inj unfolding inj_on_def by blast
    then show "x = y" by simp
  qed
  moreover have "(\<lambda>j. ps ! (j + 1)) ` ?A = {1..k}"
  proof (rule set_eqI)
    fix r show "r \<in> (\<lambda>j. ps ! (j + 1)) ` ?A \<longleftrightarrow> r \<in> {1..k}"
    proof
      assume "r \<in> (\<lambda>j. ps ! (j + 1)) ` ?A"
      then obtain j where j: "j < N" "ps ! (j + 1) \<le> k" "r = ps ! (j + 1)" by auto
      have "j + 1 \<in> {1..N}" using j by simp
      then have "ps ! (j + 1) \<in> {1..N}" using im by blast
      then show "r \<in> {1..k}" using j by simp
    next
      assume r: "r \<in> {1..k}"
      then have "r \<in> (!) ps ` {1..N}" using im k by simp
      then obtain j' where j': "j' \<in> {1..N}" "r = ps ! j'" by blast
      then have "j' - 1 < N" "ps ! ((j' - 1) + 1) = r" by auto
      then have "j' - 1 \<in> ?A" using r by simp
      then show "r \<in> (\<lambda>j. ps ! (j + 1)) ` ?A" using \<open>ps ! ((j' - 1) + 1) = r\<close> by force
    qed
  qed
  ultimately have "card ?A = card {1..k}" by (metis card_image)
  then show ?thesis by simp
qed

lemma returned_counts:
  assumes "0 \<le> n" and "0 \<le> m" and "nat m \<le> length out"
  shows "\<forall>t out'. hungarian n m cost out = Some (t, out') \<longrightarrow>
        card {j. j < nat m \<and> 0 \<le> out' ! j \<and> out' ! j < n} = nat (min n m) \<and>
        card {j. j < nat m \<and> out' ! j = - 1} = nat m - nat (min n m) \<and>
        (\<forall>j<nat m. out' ! j = - 1 \<or> (0 \<le> out' ! j \<and> out' ! j < n))"
proof -
  have B: "card {j. j < nat m \<and> 0 \<le> out' ! j \<and> out' ! j < n} = nat (min n m) \<and>
        card {j. j < nat m \<and> out' ! j = - 1} = nat m - nat (min n m) \<and>
        (\<forall>j<nat m. out' ! j = - 1 \<or> (0 \<le> out' ! j \<and> out' ! j < n))"
    if h: "hungarian n m cost out = Some (t, out')" for t out'
  proof -
    define N where "N = nat (max n m)"
    obtain s :: hstate where s: "out' = write_match n m (p s) (clear_match m out)"
      "bij_betw ((!) (p s)) {1..N} {1..N}"
      using hungarian_SomeD[OF h] unfolding N_def by blast
    have mN: "nat m \<le> N" by (simp add: N_def)
    have e: "out' ! j = job_entry n (p s) j" if "j < nat m" for j
      using write_match_nth(2)[OF assms(3) that] s(1) by simp
    have SA: "{j. j < nat m \<and> 0 \<le> out' ! j \<and> out' ! j < n} =
              {j. j < nat m \<and> p s ! (j + 1) \<le> nat n}"
    proof (rule set_eqI)
      fix j
      show "j \<in> {j. j < nat m \<and> 0 \<le> out' ! j \<and> out' ! j < n} \<longleftrightarrow>
            j \<in> {j. j < nat m \<and> p s ! (j + 1) \<le> nat n}"
      proof (cases "j < nat m")
        case True
        then have "j < N" using mN by simp
        then show ?thesis using job_entry_assigned(1)[OF s(2), of j n] e[OF True] True assms(1)
          by (simp add: le_nat_iff)
      next
        case False
        then show ?thesis by simp
      qed
    qed
    have SB: "{j. j < nat m \<and> out' ! j = - 1} =
              {j. j < nat m} - {j. j < nat m \<and> p s ! (j + 1) \<le> nat n}"
    proof (rule set_eqI)
      fix j
      show "j \<in> {j. j < nat m \<and> out' ! j = - 1} \<longleftrightarrow>
            j \<in> {j. j < nat m} - {j. j < nat m \<and> p s ! (j + 1) \<le> nat n}"
      proof (cases "j < nat m")
        case True
        then have "j < N" using mN by simp
        then show ?thesis using job_entry_assigned(2)[OF s(2), of j n] e[OF True] True assms(1)
          by (simp add: le_nat_iff)
      next
        case False
        then show ?thesis by simp
      qed
    qed
    have cnt: "card {j. j < nat m \<and> p s ! (j + 1) \<le> nat n} = nat (min n m)"
    proof (cases "n \<le> m")
      case True
      then have "N = nat m" "nat n \<le> N" using assms by (simp_all add: N_def)
      then show ?thesis using count_real_rows[OF s(2), of "nat n"] True assms by simp
    next
      case False
      then have N: "N = nat n" using assms by (simp add: N_def)
      have "p s ! (j + 1) \<le> nat n" if "j < nat m" for j
      proof -
        have "j + 1 \<in> {1..N}" using that mN by simp
        then have "p s ! (j + 1) \<in> {1..N}" using s(2) unfolding bij_betw_def by blast
        then show ?thesis using N by simp
      qed
      then have "{j. j < nat m \<and> p s ! (j + 1) \<le> nat n} = {..<nat m}" by auto
      then show ?thesis using False by simp
    qed
    have 1: "card {j. j < nat m \<and> 0 \<le> out' ! j \<and> out' ! j < n} = nat (min n m)"
      unfolding SA by (rule cnt)
    have fin: "finite {j. j < nat m}" by simp
    have sub: "{j. j < nat m \<and> p s ! (j + 1) \<le> nat n} \<subseteq> {j. j < nat m}" by blast
    have "card ({j. j < nat m} - {j. j < nat m \<and> p s ! (j + 1) \<le> nat n}) =
          card {j. j < nat m} - card {j. j < nat m \<and> p s ! (j + 1) \<le> nat n}"
      by (rule card_Diff_subset[OF finite_subset[OF sub fin] sub])
    then have 2: "card {j. j < nat m \<and> out' ! j = - 1} = nat m - nat (min n m)"
      unfolding SB cnt by simp
    have 3: "\<forall>j<nat m. out' ! j = - 1 \<or> (0 \<le> out' ! j \<and> out' ! j < n)"
      using e job_entry_range by simp
    show ?thesis by (rule conjI 1 2 3)+
  qed
  show ?thesis using B by blast
qed

text \<open>
  Claim C4, as amended: let \<open>n, m \<ge> 0\<close> be below \<open>INT_MAX\<close>, let the allocations succeed and
  let every cost be at most \<open>2 * 10^17\<close> in magnitude (so costs may exceed the padding cost
  \<open>10^9\<close> by many orders of magnitude).  Then the call returns, exactly \<open>min n m\<close> jobs receive
  a worker, each of them a real worker in \<open>[0, n)\<close>, every entry is such a worker or -1, and
  exactly \<open>m - min n m\<close> positions hold -1: a padded row is never reported.  With more
  workers than jobs no position is unassigned; the \<open>n - m\<close> excess workers have no position
  in the array.
\<close>

theorem padding_never_assigned:
  assumes "0 \<le> n" and "0 \<le> m" and "max n m < INT_MAX" and "small_costs n m cost"
    and "nat m \<le> length out"
  shows "\<exists>t out'. hungarian_call True n m cost out = Some (Inr (t, out')) \<and>
        card {j. j < nat m \<and> 0 \<le> out' ! j \<and> out' ! j < n} = nat (min n m) \<and>
        card {j. j < nat m \<and> out' ! j = - 1} = nat m - nat (min n m) \<and>
        (\<forall>j<nat m. out' ! j = - 1 \<or> (0 \<le> out' ! j \<and> out' ! j < n))"
proof -
  have "hungarian n m cost out \<noteq> None" by (rule small_costs_hungarian[OF assms(4)])
  then obtain t out' where h: "hungarian n m cost out = Some (t, out')" by auto
  have c: "hungarian_call True n m cost out = Some (Inr (t, out'))"
    unfolding hungarian_call_ok[OF assms(3)] h by simp
  show ?thesis
    using c returned_counts[OF assms(1,2,5), of cost] h by blast
qed

text \<open>
  Witness for C4: the demonstration instance, three workers and four jobs.
\<close>

theorem padding_never_assigned_witness:
  "hungarian_call True 3 4 demo_cost [0, 0, 0, 0] = Some (Inr (51 / 5, [1, 0, 2, - 1])) \<and>
   card {j. j < nat 4 \<and> 0 \<le> [1, 0, 2, - 1 :: int] ! j \<and> [1, 0, 2, - 1 :: int] ! j < 3} = nat (min 3 4) \<and>
   card {j. j < nat 4 \<and> [1, 0, 2, - 1 :: int] ! j = - 1} = nat 4 - nat (min 3 4)"
proof -
  have l: "(0 :: int) \<le> 3" "(0 :: int) \<le> 4" "max 3 4 < INT_MAX"
      "nat 4 \<le> length [0, 0, 0, 0 :: int]"
    by (simp_all add: INT_MAX_def)
  obtain t out' where r:
      "hungarian_call True 3 4 demo_cost [0, 0, 0, 0] = Some (Inr (t, out'))"
      "card {j. j < nat 4 \<and> 0 \<le> out' ! j \<and> out' ! j < 3} = nat (min 3 4)"
      "card {j. j < nat 4 \<and> out' ! j = - 1} = nat 4 - nat (min 3 4)"
    using padding_never_assigned [OF l(1,2,3) small_costs_demo l(4)] by blast
  have "hungarian_call True 3 4 demo_cost [0, 0, 0, 0] = Some (Inr (51 / 5, [1, 0, 2, - 1]))"
    unfolding hungarian_call_ok[OF l(3)] demo_run by simp
  then have e: "t = 51 / 5" "out' = [1, 0, 2, - 1]" using r(1) by simp_all
  show ?thesis using r unfolding e by blast
qed

lemma column_cost_run: "hungarian 2 1 column_cost [5] = Some (1, [0])"
  by code_simp

text \<open>
  Counterexample to C4 as stated: with two workers and one job (costs 1 and 2) the call
  returns the one-entry assignment \<open>[0]\<close>.  The number of unassigned positions is 0, not
  \<open>|n - m| = 1\<close>; the excess worker has no position in the array.
\<close>

theorem excess_workers_have_no_position:
  "hungarian_call True 2 1 column_cost [5] = Some (Inr (1, [0])) \<and>
   card {j. j < nat 1 \<and> [0 :: int] ! j = - 1} \<noteq> nat \<bar>2 - 1\<bar>"
proof -
  have l: "max 2 1 < INT_MAX" by (simp add: INT_MAX_def)
  have "hungarian_call True 2 1 column_cost [5] = Some (Inr (1, [0]))"
    unfolding hungarian_call_ok[OF l] column_cost_run by simp
  moreover have "{j. j < nat 1 \<and> [0 :: int] ! j = - 1} = {}" by auto
  then have "card {j. j < nat 1 \<and> [0 :: int] ! j = - 1} = 0" by (simp only: card.empty)
  then have "card {j. j < nat 1 \<and> [0 :: int] ! j = - 1} \<noteq> nat \<bar>2 - 1\<bar>" by linarith
  ultimately show ?thesis by (rule conjI)
qed

lemma round_used0:
  assumes "search_inv a N i s" "continues s" "bounded a N"
  shows "used (search_round a N s) ! 0"
proof (rule ccontr)
  assume n: "\<not> used (search_round a N s) ! 0"
  obtain d where rp: "round_post a N s d (search_round a N s)"
    and si: "search_inv a N i (search_round a N s)"
    using round_inv[OF assms] by blast
  have j0: "j0 s \<le> N" using search_invD(7)[OF assms(1)] .
  have "used (search_round a N s) ! j0 s"
    using rp j0 unfolding round_post_def by blast
  moreover have "\<forall>j\<le>N. \<not> used (search_round a N s) ! j"
    using search_invD(11)[OF si n] unfolding first_inv_def by blast
  ultimately show False using j0 by blast
qed

lemma search_inv_feasible:
  assumes si: "search_inv a N i s"
    and r: "1 \<le> r" "r \<le> N" and j: "1 \<le> j" "j \<le> N"
    and c: "r < i \<or> (r = i \<and> used s ! 0) \<or> (\<forall>r c. 1 \<le> r \<and> r \<le> N \<and> 1 \<le> c \<and> c \<le> N \<longrightarrow> 0 \<le> a ! r ! c)"
  shows "u s ! r + v s ! j \<le> a ! r ! j"
proof -
  note sd = search_invD[OF si]
  note cd = core_invD[OF sd(3)]
  have low: "0 \<le> rc a s r j" if "r < i"
    using cd(6)[of r j] that r j by simp
  have cur: "0 \<le> rc a s r j" if "r = i" "used s ! 0"
  proof -
    have "j \<in> {1..N}" using j by simp
    then show ?thesis using sd(10)[OF that(2)] that(1) unfolding later_inv_def by blast
  qed
  have nn: "u s ! r + v s ! j \<le> a ! r ! j"
    if a0: "\<forall>r c. 1 \<le> r \<and> r \<le> N \<and> 1 \<le> c \<and> c \<le> N \<longrightarrow> 0 \<le> a ! r ! c"
      and nl: "\<not> r < i" and nc: "\<not> (r = i \<and> used s ! 0)"
  proof -
    have u0: "u s ! r = 0"
    proof (cases "r = i")
      case True
      then have "\<not> used s ! 0" using nc by simp
      then show ?thesis using sd(11) True unfolding first_inv_def by blast
    next
      case False
      then have "i - 1 + 1 < r" using nl sd(1) by simp
      then show ?thesis using cd(9) r by simp
    qed
    have "v s ! j \<le> 0" using cd(7) j by simp
    moreover have "0 \<le> a ! r ! j" using a0 r j by blast
    ultimately show ?thesis using u0 by simp
  qed
  show ?thesis
  proof (cases "r < i")
    case True
    then show ?thesis using low by (simp add: rc_def)
  next
    case F1: False
    show ?thesis
    proof (cases "r = i \<and> used s ! 0")
      case True
      then show ?thesis using cur by (simp add: rc_def)
    next
      case False
      then show ?thesis using nn F1 c by blast
    qed
  qed
qed

lemma pad_nonneg:
  assumes "nonneg_costs n m cost"
  shows "\<forall>r c. 1 \<le> r \<and> r \<le> N \<and> 1 \<le> c \<and> c \<le> N \<longrightarrow> 0 \<le> pad n m cost N ! r ! c"
proof (intro allI impI)
  fix r c assume h: "1 \<le> r \<and> r \<le> N \<and> 1 \<le> c \<and> c \<le> N"
  have "0 \<le> pad_cell n m cost r c"
  proof (cases "0 < r \<and> 0 < c \<and> int r \<le> n \<and> int c \<le> m")
    case True
    then have "int (r - 1) < n \<and> int (c - 1) < m" by auto
    then have "0 \<le> cost (r - 1) (c - 1)"
      using assms unfolding nonneg_costs_def by blast
    then show ?thesis using True by (simp add: pad_cell_def)
  next
    case False
    have "pad_cell n m cost r c = PAD_d"
      unfolding pad_cell_def by (rule if_not_P) (rule False)
    then show ?thesis by (simp add: PAD_d_def)
  qed
  then show "0 \<le> pad n m cost N ! r ! c" using h by (simp add: pad_nth)
qed

lemma row_start:
  assumes b: "bounded a N" and i: "1 \<le> i" "i \<le> N"
  shows "\<exists>s. insert_rows a N [1..<i] (init_state N) = Some s \<and>
             search_inv a N i (start_row N i s) \<and> continues (start_row N i s) \<and>
             (\<exists>c. exits_after a N (start_row N i s) c \<and> c \<le> i)"
proof -
  have k: "i - 1 \<le> N" "i - 1 < N" "i - 1 + 1 = i" using i by simp_all
  obtain s where s: "insert_rows a N [1..<i - 1 + 1] (init_state N) = Some s"
    "rows_inv a N (i - 1) s"
    using insert_rows_inv[OF b k(1)] by blast
  have "search_inv a N i (start_row N i s)" "continues (start_row N i s)"
    using start_row_inv[OF s(2) k(2)] unfolding k(3) by blast+
  moreover have "\<exists>c. exits_after a N (start_row N i s) c \<and> c \<le> i"
    using insert_row_inv[OF s(2) k(2) b] unfolding k(3) by blast
  ultimately show ?thesis using s(1) unfolding k(3) by blast
qed




lemma feasibility_small:
  assumes "small_costs n m cost"
  shows "(\<forall>i\<in>{1..nat (max n m)}. \<exists>s.
            insert_rows (pad n m cost (nat (max n m))) (nat (max n m)) [1..<i]
               (init_state (nat (max n m))) = Some s \<and>
            (\<forall>k. (\<forall>k'. 1 \<le> k' \<and> k' < k \<longrightarrow>
                     continues ((search_round (pad n m cost (nat (max n m))) (nat (max n m)) ^^ k')
                                  (start_row (nat (max n m)) i s))) \<longrightarrow>
                 (\<forall>r\<in>{1..nat (max n m)}. \<forall>j\<in>{1..nat (max n m)}.
                     r < i \<or> (r = i \<and> 1 \<le> k) \<or> nonneg_costs n m cost \<longrightarrow>
                     u ((search_round (pad n m cost (nat (max n m))) (nat (max n m)) ^^ k)
                          (start_row (nat (max n m)) i s)) ! r +
                     v ((search_round (pad n m cost (nat (max n m))) (nat (max n m)) ^^ k)
                          (start_row (nat (max n m)) i s)) ! j
                       \<le> pad n m cost (nat (max n m)) ! r ! j))) \<and>
         (\<exists>s. insert_rows (pad n m cost (nat (max n m))) (nat (max n m))
                 [1..<nat (max n m) + 1] (init_state (nat (max n m))) = Some s \<and>
              (\<forall>j\<in>{1..nat (max n m)}.
                  u s ! (p s ! j) + v s ! j = pad n m cost (nat (max n m)) ! (p s ! j) ! j) \<and>
              (\<forall>r\<in>{1..nat (max n m)}. \<forall>j\<in>{1..nat (max n m)}.
                  u s ! r + v s ! j \<le> pad n m cost (nat (max n m)) ! r ! j))"
proof -
  define N where "N = nat (max n m)"
  define a where "a = pad n m cost N"
  have b: "bounded a N" unfolding a_def by (rule pad_bounded[OF assms])
  have 1: "\<forall>i\<in>{1..N}. \<exists>s. insert_rows a N [1..<i] (init_state N) = Some s \<and>
            (\<forall>k. (\<forall>k'. 1 \<le> k' \<and> k' < k \<longrightarrow>
                     continues ((search_round a N ^^ k') (start_row N i s))) \<longrightarrow>
                 (\<forall>r\<in>{1..N}. \<forall>j\<in>{1..N}.
                     r < i \<or> (r = i \<and> 1 \<le> k) \<or> nonneg_costs n m cost \<longrightarrow>
                     u ((search_round a N ^^ k) (start_row N i s)) ! r +
                     v ((search_round a N ^^ k) (start_row N i s)) ! j \<le> a ! r ! j))"
  proof
    fix i assume "i \<in> {1..N}"
    then have i: "1 \<le> i" "i \<le> N" by simp_all
    obtain s where s: "insert_rows a N [1..<i] (init_state N) = Some s"
      "search_inv a N i (start_row N i s)" "continues (start_row N i s)"
      using row_start[OF b i] by blast
    have F: "u ((search_round a N ^^ k) (start_row N i s)) ! r +
             v ((search_round a N ^^ k) (start_row N i s)) ! j \<le> a ! r ! j"
      if ks: "\<forall>k'. 1 \<le> k' \<and> k' < k \<longrightarrow> continues ((search_round a N ^^ k') (start_row N i s))"
        and r: "r \<in> {1..N}" and j: "j \<in> {1..N}"
        and c: "r < i \<or> (r = i \<and> 1 \<le> k) \<or> nonneg_costs n m cost" for k r j
    proof -
      let ?sk = "(search_round a N ^^ k) (start_row N i s)"
      have sk: "search_inv a N i ?sk"
        using search_inv_funpow[OF b s(2) s(3) ks] .
      have u0: "used ?sk ! 0" if k1: "1 \<le> k"
      proof -
        obtain k0 where k0: "k = Suc k0" using k1 by (cases k) auto
        have ks0: "\<forall>k'. 1 \<le> k' \<and> k' < k0 \<longrightarrow> continues ((search_round a N ^^ k') (start_row N i s))"
          using ks k0 by simp
        have s0: "search_inv a N i ((search_round a N ^^ k0) (start_row N i s))"
          using search_inv_funpow[OF b s(2) s(3) ks0] .
        have c0: "continues ((search_round a N ^^ k0) (start_row N i s))"
        proof (cases "k0 = 0")
          case True
          then show ?thesis using s(3) by simp
        next
          case False
          then show ?thesis using ks k0 by simp
        qed
        show ?thesis using round_used0[OF s0 c0 b] by (simp add: k0)
      qed
      have c': "r < i \<or> (r = i \<and> used ?sk ! 0) \<or>
                (\<forall>r c. 1 \<le> r \<and> r \<le> N \<and> 1 \<le> c \<and> c \<le> N \<longrightarrow> 0 \<le> a ! r ! c)"
        using c u0 pad_nonneg[of n m cost N] unfolding a_def by blast
      show ?thesis
        using search_inv_feasible[OF sk _ _ _ _ c'] r j by simp
    qed
    show "\<exists>s. insert_rows a N [1..<i] (init_state N) = Some s \<and>
            (\<forall>k. (\<forall>k'. 1 \<le> k' \<and> k' < k \<longrightarrow>
                     continues ((search_round a N ^^ k') (start_row N i s))) \<longrightarrow>
                 (\<forall>r\<in>{1..N}. \<forall>j\<in>{1..N}.
                     r < i \<or> (r = i \<and> 1 \<le> k) \<or> nonneg_costs n m cost \<longrightarrow>
                     u ((search_round a N ^^ k) (start_row N i s)) ! r +
                     v ((search_round a N ^^ k) (start_row N i s)) ! j \<le> a ! r ! j))"
      using s(1) F by blast
  qed
  obtain s where s: "insert_rows a N [1..<N + 1] (init_state N) = Some s" "rows_inv a N N s"
    using insert_rows_inv[OF b, of N] by auto
  have t: "u s ! (p s ! j) + v s ! j = a ! (p s ! j) ! j" if "j \<in> {1..N}" for j
    using rows_inv_full(2)[OF s(2) that] by (simp add: rc_def)
  have f: "u s ! r + v s ! j \<le> a ! r ! j" if "r \<in> {1..N}" "j \<in> {1..N}" for r j
    using rows_inv_full(3)[OF s(2) that] by (simp add: rc_def)
  have 2: "\<exists>s. insert_rows a N [1..<N + 1] (init_state N) = Some s \<and>
              (\<forall>j\<in>{1..N}. u s ! (p s ! j) + v s ! j = a ! (p s ! j) ! j) \<and>
              (\<forall>r\<in>{1..N}. \<forall>j\<in>{1..N}. u s ! r + v s ! j \<le> a ! r ! j)"
    using s(1) t f by blast
  show ?thesis using 1 2 unfolding a_def N_def by blast
qed

lemma integer_costs_whole: "integer_costs 3 4 whole_cost"
  unfolding integer_costs_def
proof (intro allI impI)
  fix i j :: nat assume "int i < 3 \<and> int j < 4"
  then have "i \<in> {0, 1, 2}" "j \<in> {0, 1, 2, 3}" by auto
  then show "whole_cost i j \<in> \<int> \<and> \<bar>whole_cost i j\<bar> \<le> 1000000"
    by (auto simp: whole_cost_def matrix_def)
qed

lemma nonneg_costs_whole: "nonneg_costs 3 4 whole_cost"
  unfolding nonneg_costs_def
proof (intro allI impI)
  fix i j :: nat assume "int i < 3 \<and> int j < 4"
  then have "i \<in> {0, 1, 2}" "j \<in> {0, 1, 2, 3}" by auto
  then show "0 \<le> whole_cost i j"
    by (auto simp: whole_cost_def matrix_def)
qed

text \<open>
  Claim C6, as amended: let every cost be a whole number of magnitude at most \<open>10^6\<close>, so
  that the arithmetic of the run is exact.  At every head of the search loop of outer
  iteration \<open>i\<close> (the state after \<open>k\<close> rounds, for every \<open>k\<close> the loop reaches),
  \<open>u[r] + v[j] \<le> a[r][j]\<close> holds for all \<open>j\<close> in \<open>1..N\<close> and every row \<open>r < i\<close>, for row \<open>i\<close>
  itself once one round has run, and for every row of the square when no cost is
  negative.  At termination the inequality holds on the whole padded square and every
  matched edge \<open>(p[j], j)\<close> satisfies it with equality.
\<close>

theorem dual_feasibility:
  assumes "integer_costs n m cost"
  shows "(\<forall>i\<in>{1..nat (max n m)}. \<exists>s.
            insert_rows (pad n m cost (nat (max n m))) (nat (max n m)) [1..<i]
               (init_state (nat (max n m))) = Some s \<and>
            (\<forall>k. (\<forall>k'. 1 \<le> k' \<and> k' < k \<longrightarrow>
                     continues ((search_round (pad n m cost (nat (max n m))) (nat (max n m)) ^^ k')
                                  (start_row (nat (max n m)) i s))) \<longrightarrow>
                 (\<forall>r\<in>{1..nat (max n m)}. \<forall>j\<in>{1..nat (max n m)}.
                     r < i \<or> (r = i \<and> 1 \<le> k) \<or> nonneg_costs n m cost \<longrightarrow>
                     u ((search_round (pad n m cost (nat (max n m))) (nat (max n m)) ^^ k)
                          (start_row (nat (max n m)) i s)) ! r +
                     v ((search_round (pad n m cost (nat (max n m))) (nat (max n m)) ^^ k)
                          (start_row (nat (max n m)) i s)) ! j
                       \<le> pad n m cost (nat (max n m)) ! r ! j))) \<and>
         (\<exists>s. insert_rows (pad n m cost (nat (max n m))) (nat (max n m))
                 [1..<nat (max n m) + 1] (init_state (nat (max n m))) = Some s \<and>
              (\<forall>j\<in>{1..nat (max n m)}.
                  u s ! (p s ! j) + v s ! j = pad n m cost (nat (max n m)) ! (p s ! j) ! j) \<and>
              (\<forall>r\<in>{1..nat (max n m)}. \<forall>j\<in>{1..nat (max n m)}.
                  u s ! r + v s ! j \<le> pad n m cost (nat (max n m)) ! r ! j))"
  by (rule feasibility_small[OF integer_small[OF assms]])

text \<open>
  Witness for C6: three workers and four jobs with whole-number costs, none negative.
\<close>

theorem dual_feasibility_witness:
  "\<exists>s. insert_rows (pad 3 4 whole_cost (nat (max 3 4))) (nat (max 3 4))
          [1..<nat (max 3 4) + 1] (init_state (nat (max 3 4))) = Some s \<and>
       u s ! (p s ! 1) + v s ! 1 = pad 3 4 whole_cost (nat (max 3 4)) ! (p s ! 1) ! 1 \<and>
       u s ! 2 + v s ! 3 \<le> pad 3 4 whole_cost (nat (max 3 4)) ! 2 ! 3 \<and>
       u (start_row (nat (max 3 4)) 1 (init_state (nat (max 3 4)))) ! 3 +
       v (start_row (nat (max 3 4)) 1 (init_state (nat (max 3 4)))) ! 2
         \<le> pad 3 4 whole_cost (nat (max 3 4)) ! 3 ! 2"
proof -
  note th = dual_feasibility [OF integer_costs_whole]
  obtain s where s: "insert_rows (pad 3 4 whole_cost (nat (max 3 4))) (nat (max 3 4))
          [1..<nat (max 3 4) + 1] (init_state (nat (max 3 4))) = Some s"
     "\<forall>j\<in>{1..nat (max 3 4)}.
         u s ! (p s ! j) + v s ! j = pad 3 4 whole_cost (nat (max 3 4)) ! (p s ! j) ! j"
     "\<forall>r\<in>{1..nat (max 3 4)}. \<forall>j\<in>{1..nat (max 3 4)}.
         u s ! r + v s ! j \<le> pad 3 4 whole_cost (nat (max 3 4)) ! r ! j"
    using th by blast
  have m: "(1 :: nat) \<in> {1..nat (max 3 4)}" "(2 :: nat) \<in> {1..nat (max 3 4)}"
     "(3 :: nat) \<in> {1..nat (max 3 4)}"
    by simp_all
  have 1: "u s ! (p s ! 1) + v s ! 1 = pad 3 4 whole_cost (nat (max 3 4)) ! (p s ! 1) ! 1"
    using s(2) m(1) by blast
  have 2: "u s ! 2 + v s ! 3 \<le> pad 3 4 whole_cost (nat (max 3 4)) ! 2 ! 3"
    using s(3) m(2,3) by blast
  obtain s0 where s0: "insert_rows (pad 3 4 whole_cost (nat (max 3 4))) (nat (max 3 4)) [1..<1]
               (init_state (nat (max 3 4))) = Some s0"
     "\<forall>k. (\<forall>k'. 1 \<le> k' \<and> k' < k \<longrightarrow>
                     continues ((search_round (pad 3 4 whole_cost (nat (max 3 4))) (nat (max 3 4)) ^^ k')
                                  (start_row (nat (max 3 4)) 1 s0))) \<longrightarrow>
                 (\<forall>r\<in>{1..nat (max 3 4)}. \<forall>j\<in>{1..nat (max 3 4)}.
                     r < 1 \<or> (r = 1 \<and> 1 \<le> k) \<or> nonneg_costs 3 4 whole_cost \<longrightarrow>
                     u ((search_round (pad 3 4 whole_cost (nat (max 3 4))) (nat (max 3 4)) ^^ k)
                          (start_row (nat (max 3 4)) 1 s0)) ! r +
                     v ((search_round (pad 3 4 whole_cost (nat (max 3 4))) (nat (max 3 4)) ^^ k)
                          (start_row (nat (max 3 4)) 1 s0)) ! j
                       \<le> pad 3 4 whole_cost (nat (max 3 4)) ! r ! j)"
    using th m(1) by blast
  have e0: "s0 = init_state (nat (max 3 4))" using s0(1) by simp
  have "\<forall>r\<in>{1..nat (max 3 4)}. \<forall>j\<in>{1..nat (max 3 4)}.
                     r < 1 \<or> (r = 1 \<and> 1 \<le> (0 :: nat)) \<or> nonneg_costs 3 4 whole_cost \<longrightarrow>
                     u ((search_round (pad 3 4 whole_cost (nat (max 3 4))) (nat (max 3 4)) ^^ 0)
                          (start_row (nat (max 3 4)) 1 s0)) ! r +
                     v ((search_round (pad 3 4 whole_cost (nat (max 3 4))) (nat (max 3 4)) ^^ 0)
                          (start_row (nat (max 3 4)) 1 s0)) ! j
                       \<le> pad 3 4 whole_cost (nat (max 3 4)) ! r ! j"
    using s0(2)[rule_format, of 0] by simp
  then have 3: "u (start_row (nat (max 3 4)) 1 (init_state (nat (max 3 4)))) ! 3 +
       v (start_row (nat (max 3 4)) 1 (init_state (nat (max 3 4)))) ! 2
         \<le> pad 3 4 whole_cost (nat (max 3 4)) ! 3 ! 2"
    using m(2,3) nonneg_costs_whole unfolding e0 by simp
  show ?thesis using s(1) 1 2 3 by blast
qed

text \<open>
  Counterexample to C6 as stated: on the 1 by 1 matrix with the single cost -1 the
  potentials are all zero after initialisation, so \<open>u[1] + v[1] = 0\<close> exceeds \<open>a[1][1] = -1\<close>.
\<close>

theorem negative_cost_infeasible_at_start:
  "\<not> (u (init_state 1) ! 1 + v (init_state 1) ! 1 \<le> pad 1 1 (\<lambda>i j. - 1) 1 ! 1 ! 1)"
  by code_simp

lemma sum_shift: "(\<Sum>j\<in>{1..N :: nat}. h j) = (\<Sum>j<N. (h (j + 1) :: real))"
  by (simp add: sum.atLeast1_atMost_eq)

lemma bij_shift_up:
  assumes "bij_betw f {..<N} {..<N}"
  shows "bij_betw (\<lambda>j. f (j - 1) + 1) {1..N} {1..N :: nat}"
proof -
  have inj: "inj_on f {..<N}" and im: "f ` {..<N} = {..<N}"
    using assms unfolding bij_betw_def by blast+
  have "inj_on (\<lambda>j. f (j - 1) + 1) {1..N}"
  proof (rule inj_onI)
    fix x y assume h: "x \<in> {1..N}" "y \<in> {1..N}" "f (x - 1) + 1 = f (y - 1) + 1"
    then have "x - 1 \<in> {..<N}" "y - 1 \<in> {..<N}" "f (x - 1) = f (y - 1)" by auto
    then have "x - 1 = y - 1" using inj unfolding inj_on_def by blast
    then show "x = y" using h by auto
  qed
  moreover have "(\<lambda>j. f (j - 1) + 1) ` {1..N} \<subseteq> {1..N}"
  proof
    fix r assume "r \<in> (\<lambda>j. f (j - 1) + 1) ` {1..N}"
    then obtain j where j: "j \<in> {1..N}" "r = f (j - 1) + 1" by blast
    then have "j - 1 \<in> {..<N}" by auto
    then have "f (j - 1) \<in> {..<N}" using im by blast
    then show "r \<in> {1..N}" using j by simp
  qed
  ultimately have "(\<lambda>j. f (j - 1) + 1) ` {1..N} = {1..N}"
    by (intro endo_inj_surj) simp_all
  then show ?thesis using \<open>inj_on (\<lambda>j. f (j - 1) + 1) {1..N}\<close> unfolding bij_betw_def by blast
qed

lemma bij_shift_down:
  assumes "bij_betw f {1..N} {1..N :: nat}"
  shows "bij_betw (\<lambda>j. f (j + 1) - 1) {..<N} {..<N}"
proof -
  have inj: "inj_on f {1..N}" and im: "f ` {1..N} = {1..N}"
    using assms unfolding bij_betw_def by blast+
  have rng: "f (j + 1) \<in> {1..N}" if "j < N" for j
  proof -
    have "j + 1 \<in> {1..N}" using that by simp
    then show ?thesis using im by blast
  qed
  have i1: "inj_on (\<lambda>j. f (j + 1) - 1) {..<N}"
  proof (rule inj_onI)
    fix x y assume h: "x \<in> {..<N}" "y \<in> {..<N}" "f (x + 1) - 1 = f (y + 1) - 1"
    have "f (x + 1) = f (y + 1)" using h(3) rng[of x] rng[of y] h(1,2) by auto
    moreover have "x + 1 \<in> {1..N}" "y + 1 \<in> {1..N}" using h by auto
    ultimately have "x + 1 = y + 1" using inj unfolding inj_on_def by blast
    then show "x = y" by simp
  qed
  moreover have "(\<lambda>j. f (j + 1) - 1) ` {..<N} \<subseteq> {..<N}"
  proof
    fix r assume "r \<in> (\<lambda>j. f (j + 1) - 1) ` {..<N}"
    then obtain j where j: "j < N" "r = f (j + 1) - 1" by auto
    then show "r \<in> {..<N}" using rng[OF j(1)] by auto
  qed
  ultimately have "(\<lambda>j. f (j + 1) - 1) ` {..<N} = {..<N}"
    by (intro endo_inj_surj) simp_all
  then show ?thesis using i1 unfolding bij_betw_def by blast
qed

lemma square_run:
  assumes n: "0 \<le> n" and sc: "small_costs n n cost" and l: "length out = nat n"
  shows "\<exists>ps. hungarian n n cost out =
             Some (\<Sum>j<nat n. cost (ps ! (j + 1) - 1) j, map (\<lambda>j. int (ps ! (j + 1)) - 1) [0..<nat n]) \<and>
           bij_betw ((!) ps) {1..nat n} {1..nat n} \<and>
           (\<forall>q. bij_betw q {1..nat n} {1..nat n} \<longrightarrow>
              (\<Sum>j<nat n. cost (ps ! (j + 1) - 1) j) \<le> (\<Sum>j\<in>{1..nat n}. cost (q j - 1) (j - 1)))"
proof -
  define N where "N = nat n"
  define a where "a = pad n n cost N"
  have mx: "nat (max n n) = N" by (simp add: N_def)
  obtain s where s: "insert_rows a N [1..<N + 1] (init_state N) = Some s" "rows_inv a N N s"
    using small_costs_returns[OF sc] unfolding mx a_def by blast
  note full = rows_inv_full[OF s(2)]
  define ps where "ps = p s"
  have bp: "bij_betw ((!) ps) {1..N} {1..N}" using full(1) by (simp add: ps_def)
  have rng: "ps ! j \<in> {1..N}" if "j \<in> {1..N}" for j
    using bp that unfolding bij_betw_def by blast
  have inN: "int r \<le> n" if "r \<le> N" for r
    using that n by (simp add: N_def le_nat_iff)
  have acell: "a ! r ! j = cost (r - 1) (j - 1)" if "r \<in> {1..N}" "j \<in> {1..N}" for r j
  proof -
    have "0 < r \<and> 0 < j \<and> int r \<le> n \<and> int j \<le> n" using that inN by simp
    then have "pad_cell n n cost r j = cost (r - 1) (j - 1)"
      unfolding pad_cell_def by (rule if_P)
    then show ?thesis using that unfolding a_def by (simp add: pad_nth)
  qed
  have cc: "cell_cost n n cost ps j = cost (ps ! j - 1) (j - 1)" if "j \<in> {1..N}" for j
  proof -
    have "0 < ps ! j \<and> int (ps ! j) \<le> n \<and> int j \<le> n"
      using rng[OF that] that inN by simp
    then show ?thesis unfolding cell_cost_def by (rule if_P)
  qed
  have tot: "total_cost n n cost N ps = (\<Sum>j<N. cost (ps ! (j + 1) - 1) j)"
  proof -
    have "total_cost n n cost N ps = (\<Sum>j\<in>{1..N}. cost (ps ! j - 1) (j - 1))"
      unfolding total_cost_sum using cc by (intro sum.cong) simp_all
    also have "\<dots> = (\<Sum>j<N. cost (ps ! (j + 1) - 1) j)"
      unfolding sum_shift by simp
    finally show ?thesis .
  qed
  have je: "job_entry n ps j = int (ps ! (j + 1)) - 1" if "j < N" for j
  proof -
    have "ps ! (j + 1) \<in> {1..N}" using rng[of "j + 1"] that by simp
    then have "0 < ps ! (j + 1) \<and> int (ps ! (j + 1)) \<le> n" using inN by simp
    then show ?thesis unfolding job_entry_def by (rule if_P)
  qed
  have mp: "map (job_entry n ps) [0..<N] = map (\<lambda>j. int (ps ! (j + 1)) - 1) [0..<N]"
    using je by simp
  have h: "hungarian n n cost out =
      Some (\<Sum>j<N. cost (ps ! (j + 1) - 1) j, map (\<lambda>j. int (ps ! (j + 1)) - 1) [0..<N])"
    using hungarian_Some[of n n cost s out] s(1) l tot mp unfolding mx a_def ps_def N_def by simp
  have opt: "(\<Sum>j<N. cost (ps ! (j + 1) - 1) j) \<le> (\<Sum>j\<in>{1..N}. cost (q j - 1) (j - 1))"
    if bq: "bij_betw q {1..N} {1..N}" for q
  proof -
    have qr: "q j \<in> {1..N}" if "j \<in> {1..N}" for j
      using bq that unfolding bij_betw_def by blast
    have "(\<Sum>j\<in>{1..N}. a ! (ps ! j) ! j) \<le> (\<Sum>j\<in>{1..N}. a ! (q j) ! j)"
    proof (rule square_optimal[where uf = "(!) (u s)" and vf = "(!) (v s)", OF bp _ _ bq])
      show "a ! (ps ! j) ! j = u s ! (ps ! j) + v s ! j" if "j \<in> {1..N}" for j
        using full(2)[OF that] by (simp add: rc_def ps_def)
      show "u s ! r + v s ! j \<le> a ! r ! j" if "r \<in> {1..N}" "j \<in> {1..N}" for r j
        using full(3)[OF that] by (simp add: rc_def)
    qed
    moreover have "(\<Sum>j\<in>{1..N}. a ! (ps ! j) ! j) = (\<Sum>j\<in>{1..N}. cost (ps ! j - 1) (j - 1))"
      using acell rng by (intro sum.cong) simp_all
    moreover have "(\<Sum>j\<in>{1..N}. a ! (q j) ! j) = (\<Sum>j\<in>{1..N}. cost (q j - 1) (j - 1))"
      using acell qr by (intro sum.cong) simp_all
    moreover have "(\<Sum>j\<in>{1..N}. cost (ps ! j - 1) (j - 1)) = (\<Sum>j<N. cost (ps ! (j + 1) - 1) j)"
      unfolding sum_shift by simp
    ultimately show ?thesis by simp
  qed
  show ?thesis
    using h bp opt unfolding N_def by blast
qed

lemma square_cost_run: "hungarian 2 2 square_cost [0, 0] = Some (3, [1, 0])"
  by code_simp

lemma huge_cost_run:
  "hungarian 2 2 huge_cost [0, 0] = Some (2000000000000000000, [0, 1])"
  by code_simp

lemma square_minimum_small:
  assumes "0 \<le> n" and "small_costs n n cost" and "length out = nat n"
  shows "\<exists>t out'. hungarian n n cost out = Some (t, out') \<and> length out' = nat n \<and>
           (\<forall>j<nat n. 0 \<le> out' ! j \<and> out' ! j < n) \<and>
           bij_betw (\<lambda>j. nat (out' ! j)) {..<nat n} {..<nat n} \<and>
           t = (\<Sum>j<nat n. cost (nat (out' ! j)) j) \<and>
           (\<forall>\<sigma>. bij_betw \<sigma> {..<nat n} {..<nat n} \<longrightarrow> t \<le> (\<Sum>j<nat n. cost (\<sigma> j) j)) \<and>
           (\<forall>\<sigma>. bij_betw \<sigma> {..<nat n} {..<nat n} \<and>
                (\<forall>\<sigma>'. bij_betw \<sigma>' {..<nat n} {..<nat n} \<and> (\<exists>j<nat n. \<sigma>' j \<noteq> \<sigma> j) \<longrightarrow>
                      (\<Sum>j<nat n. cost (\<sigma> j) j) < (\<Sum>j<nat n. cost (\<sigma>' j) j)) \<longrightarrow>
                (\<forall>j<nat n. out' ! j = int (\<sigma> j)))"
proof -
  define N where "N = nat n"
  obtain ps where ps: "hungarian n n cost out =
             Some (\<Sum>j<N. cost (ps ! (j + 1) - 1) j, map (\<lambda>j. int (ps ! (j + 1)) - 1) [0..<N])"
      "bij_betw ((!) ps) {1..N} {1..N}"
      "\<And>q. bij_betw q {1..N} {1..N} \<Longrightarrow>
              (\<Sum>j<N. cost (ps ! (j + 1) - 1) j) \<le> (\<Sum>j\<in>{1..N}. cost (q j - 1) (j - 1))"
    using square_run[OF assms] unfolding N_def by blast
  define t where "t = (\<Sum>j<N. cost (ps ! (j + 1) - 1) j)"
  define out' where "out' = map (\<lambda>j. int (ps ! (j + 1)) - 1) [0..<N]"
  have rng: "ps ! (j + 1) \<in> {1..N}" if "j < N" for j
  proof -
    have "j + 1 \<in> {1..N}" using that by simp
    then show ?thesis using ps(2) unfolding bij_betw_def by blast
  qed
  have o: "out' ! j = int (ps ! (j + 1)) - 1" if "j < N" for j
    using that by (simp add: out'_def)
  have asg: "nat (out' ! j) = ps ! (j + 1) - 1" if "j < N" for j
    using o[OF that] rng[OF that] by simp
  have 1: "length out' = N" by (simp add: out'_def)
  have 2: "\<forall>j<N. 0 \<le> out' ! j \<and> out' ! j < n"
  proof (intro allI impI)
    fix j assume j: "j < N"
    have "1 \<le> ps ! (j + 1)" "ps ! (j + 1) \<le> nat n" using rng[OF j] by (simp_all add: N_def)
    then show "0 \<le> out' ! j \<and> out' ! j < n" using o[OF j] assms(1) by linarith
  qed
  have b0: "bij_betw (\<lambda>j. ps ! (j + 1) - 1) {..<N} {..<N}"
    by (rule bij_shift_down[OF ps(2)])
  have "bij_betw (\<lambda>j. nat (out' ! j)) {..<N} {..<N} =
        bij_betw (\<lambda>j. ps ! (j + 1) - 1) {..<N} {..<N}"
    by (rule bij_betw_cong) (simp add: asg)
  then have 3: "bij_betw (\<lambda>j. nat (out' ! j)) {..<N} {..<N}"
    using b0 by blast
  have 4: "t = (\<Sum>j<N. cost (nat (out' ! j)) j)"
    unfolding t_def using asg by (intro sum.cong) simp_all
  have 5: "t \<le> (\<Sum>j<N. cost (\<sigma> j) j)" if s: "bij_betw \<sigma> {..<N} {..<N}" for \<sigma>
  proof -
    have "t \<le> (\<Sum>j\<in>{1..N}. cost ((\<sigma> (j - 1) + 1) - 1) (j - 1))"
      unfolding t_def by (rule ps(3)[OF bij_shift_up[OF s]])
    also have "\<dots> = (\<Sum>j<N. cost (\<sigma> j) j)" unfolding sum_shift by simp
    finally show ?thesis .
  qed
  have 6: "\<forall>j<N. out' ! j = int (\<sigma> j)"
    if s: "bij_betw \<sigma> {..<N} {..<N} \<and>
                (\<forall>\<sigma>'. bij_betw \<sigma>' {..<N} {..<N} \<and> (\<exists>j<N. \<sigma>' j \<noteq> \<sigma> j) \<longrightarrow>
                      (\<Sum>j<N. cost (\<sigma> j) j) < (\<Sum>j<N. cost (\<sigma>' j) j))" for \<sigma>
  proof (rule ccontr)
    assume "\<not> (\<forall>j<N. out' ! j = int (\<sigma> j))"
    then obtain j where j: "j < N" "out' ! j \<noteq> int (\<sigma> j)" by blast
    have "0 \<le> out' ! j" using 2 j(1) by blast
    then have "nat (out' ! j) \<noteq> \<sigma> j" using j(2) by auto
    then have "\<exists>j<N. nat (out' ! j) \<noteq> \<sigma> j" using j(1) by blast
    then have "(\<Sum>j<N. cost (\<sigma> j) j) < (\<Sum>j<N. cost (nat (out' ! j)) j)"
      using s 3 by blast
    moreover have "t \<le> (\<Sum>j<N. cost (\<sigma> j) j)" using 5 s by blast
    ultimately show False using 4 by simp
  qed
  have h: "hungarian n n cost out = Some (t, out')" using ps(1) by (simp add: t_def out'_def)
  show ?thesis
    unfolding N_def[symmetric]
    using h 1 2 3 4 5 6 by blast
qed

lemma integer_costs_square: "integer_costs 2 2 square_cost"
  unfolding integer_costs_def
proof (intro allI impI)
  fix i j :: nat assume "int i < 2 \<and> int j < 2"
  then have "i \<in> {0, 1}" "j \<in> {0, 1}" by auto
  then show "square_cost i j \<in> \<int> \<and> \<bar>square_cost i j\<bar> \<le> 1000000"
    by (auto simp: square_cost_def matrix_def)
qed

text \<open>
  Claim C1, as amended: for every square \<open>n\<close> by \<open>n\<close> matrix (\<open>0 \<le> n < INT_MAX\<close>, allocations
  succeeding) whose costs are whole numbers of magnitude at most \<open>10^6\<close> the call returns;
  the returned assignment is a perfect matching of workers to jobs; the returned total is
  the sum of its costs and is the minimum over all perfect matchings; and when one perfect
  matching is strictly cheaper than every other, the returned assignment is that matching.
\<close>

theorem square_total_is_minimum:
  assumes "0 \<le> n" and "n < INT_MAX" and "integer_costs n n cost" and "length out = nat n"
  shows "\<exists>t out'. hungarian_call True n n cost out = Some (Inr (t, out')) \<and>
           length out' = nat n \<and>
           (\<forall>j<nat n. 0 \<le> out' ! j \<and> out' ! j < n) \<and>
           bij_betw (\<lambda>j. nat (out' ! j)) {..<nat n} {..<nat n} \<and>
           t = (\<Sum>j<nat n. cost (nat (out' ! j)) j) \<and>
           (\<forall>\<sigma>. bij_betw \<sigma> {..<nat n} {..<nat n} \<longrightarrow> t \<le> (\<Sum>j<nat n. cost (\<sigma> j) j)) \<and>
           (\<forall>\<sigma>. bij_betw \<sigma> {..<nat n} {..<nat n} \<and>
                (\<forall>\<sigma>'. bij_betw \<sigma>' {..<nat n} {..<nat n} \<and> (\<exists>j<nat n. \<sigma>' j \<noteq> \<sigma> j) \<longrightarrow>
                      (\<Sum>j<nat n. cost (\<sigma> j) j) < (\<Sum>j<nat n. cost (\<sigma>' j) j)) \<longrightarrow>
                (\<forall>j<nat n. out' ! j = int (\<sigma> j)))"
proof -
  have l: "max n n < INT_MAX" using assms(2) by simp
  have e: "hungarian_call True n n cost out = Some (Inr (t, out'))"
    if "hungarian n n cost out = Some (t, out')" for t out'
    unfolding hungarian_call_ok[OF l] that by simp
  show ?thesis
    using square_minimum_small[OF assms(1) integer_small[OF assms(3)] assms(4)] e by blast
qed

text \<open>
  Witness for C1: the 2 by 2 matrix with rows 4, 1 and 2, 3.  The call returns total 3 with
  job 0 given to worker 1 and job 1 to worker 0, and 3 is at most the cost 4 + 3 of the
  identity matching.
\<close>

theorem square_total_is_minimum_witness:
  "hungarian_call True 2 2 square_cost [0, 0] = Some (Inr (3, [1, 0])) \<and>
   (3 :: real) \<le> (\<Sum>j<nat 2. square_cost j j) \<and>
   (3 :: real) = (\<Sum>j<nat 2. square_cost (nat ([1, 0] ! j)) j)"
proof -
  have l: "(0 :: int) \<le> 2" "(2 :: int) < INT_MAX" "length [0, 0 :: int] = nat 2"
    by (simp_all add: INT_MAX_def)
  have l2: "max 2 2 < INT_MAX" by (simp add: INT_MAX_def)
  obtain t out' where r: "hungarian_call True 2 2 square_cost [0, 0] = Some (Inr (t, out'))"
    "t = (\<Sum>j<nat 2. square_cost (nat (out' ! j)) j)"
    "\<forall>\<sigma>. bij_betw \<sigma> {..<nat 2} {..<nat 2} \<longrightarrow> t \<le> (\<Sum>j<nat 2. square_cost (\<sigma> j) j)"
    using square_total_is_minimum [OF l(1,2) integer_costs_square l(3)] by blast
  have c: "hungarian_call True 2 2 square_cost [0, 0] = Some (Inr (3, [1, 0]))"
    unfolding hungarian_call_ok[OF l2] square_cost_run by simp
  have e: "t = 3" "out' = [1, 0]" using r(1) c by simp_all
  have "bij_betw (\<lambda>j. j) {..<nat 2} {..<nat 2}" by (simp add: bij_betw_def)
  then have "t \<le> (\<Sum>j<nat 2. square_cost j j)" using r(3) by blast
  then show ?thesis using c r(2) unfolding e by blast
qed

text \<open>
  Counterexample to C1 as stated: on the 2 by 2 matrix with rows 0, 0 and \<open>10^18\<close>,
  \<open>2 * 10^18\<close> the call returns total \<open>2 * 10^18\<close> with the identity assignment, although
  giving job 0 to worker 1 and job 1 to worker 0 costs only \<open>10^18\<close>; that matching is the
  unique optimum and is not the one returned.
\<close>

theorem huge_cost_not_optimal:
  "hungarian_call True 2 2 huge_cost [0, 0] = Some (Inr (2000000000000000000, [0, 1])) \<and>
   huge_cost 1 0 + huge_cost 0 1 < 2000000000000000000"
proof -
  have l2: "max 2 2 < INT_MAX" by (simp add: INT_MAX_def)
  have "hungarian_call True 2 2 huge_cost [0, 0] = Some (Inr (2000000000000000000, [0, 1]))"
    unfolding hungarian_call_ok[OF l2] huge_cost_run by simp
  moreover have "huge_cost 1 0 + huge_cost 0 1 < 2000000000000000000"
    by (simp add: huge_cost_def matrix_def)
  ultimately show ?thesis by (rule conjI)
qed

lemma total_cost_real_sum: "total_cost n m cost N ps = real_sum n m cost N ((!) ps)"
  unfolding total_cost_sum real_sum_def cell_cost_def ..

lemma count_preimage:
  assumes b: "bij_betw q {1..N} {1..N :: nat}" and k: "k \<le> N"
  shows "card {j. j \<in> {1..N} \<and> q j \<le> k} = k"
proof -
  let ?A = "{j. j \<in> {1..N} \<and> q j \<le> k}"
  have inj: "inj_on q {1..N}" and im: "q ` {1..N} = {1..N}"
    using b unfolding bij_betw_def by blast+
  have "inj_on q ?A" by (rule inj_on_subset[OF inj]) blast
  moreover have "q ` ?A = {1..k}"
  proof (rule set_eqI)
    fix r show "r \<in> q ` ?A \<longleftrightarrow> r \<in> {1..k}"
    proof
      assume "r \<in> q ` ?A"
      then obtain j where j: "j \<in> {1..N}" "q j \<le> k" "r = q j" by auto
      then have "q j \<in> {1..N}" using im by blast
      then show "r \<in> {1..k}" using j by simp
    next
      assume r: "r \<in> {1..k}"
      then have "r \<in> q ` {1..N}" using im k by simp
      then obtain j where "j \<in> {1..N}" "r = q j" by blast
      then show "r \<in> q ` ?A" using r by auto
    qed
  qed
  ultimately have "card ?A = card {1..k}" by (metis card_image)
  then show ?thesis by simp
qed

lemma padding_count:
  assumes n: "0 \<le> n" and m: "0 \<le> m" and b: "bij_betw q {1..nat (max n m)} {1..nat (max n m)}"
  shows "card {j. j \<in> {1..nat (max n m)} \<and> \<not> (int (q j) \<le> n \<and> int j \<le> m)}
           = nat (max n m) - nat (min n m)"
proof -
  define N where "N = nat (max n m)"
  have qr: "q j \<in> {1..N}" if "j \<in> {1..N}" for j
    using b that unfolding bij_betw_def N_def by blast
  have c1: "int x \<le> n \<longleftrightarrow> x \<le> nat n" for x using n by linarith
  have c2: "int x \<le> m \<longleftrightarrow> x \<le> nat m" for x using m by linarith
  show ?thesis unfolding N_def[symmetric] c1 c2
  proof (cases "n \<le> m")
    case True
    then have N: "N = nat m" "nat n \<le> N" "nat (min n m) = nat n" using n m by (simp_all add: N_def)
    have "{j. j \<in> {1..N} \<and> \<not> (q j \<le> nat n \<and> j \<le> nat m)} =
          {1..N} - {j. j \<in> {1..N} \<and> q j \<le> nat n}"
      unfolding N(1) by (rule set_eqI) (simp, blast)
    moreover have "card ({1..N} - {j. j \<in> {1..N} \<and> q j \<le> nat n}) =
          card {1..N} - card {j. j \<in> {1..N} \<and> q j \<le> nat n}"
      by (rule card_Diff_subset) auto
    ultimately show "card {j. j \<in> {1..N} \<and> \<not> (q j \<le> nat n \<and> j \<le> nat m)} = N - nat (min n m)"
      using count_preimage[OF b[folded N_def] N(2)] N(3) by simp
  next
    case False
    then have N: "N = nat n" "nat m \<le> N" "nat (min n m) = nat m" using n m by (simp_all add: N_def)
    have qn: "q j \<le> nat n" if "j \<in> {1..N}" for j
      using qr[OF that] N(1) by simp
    have "{j. j \<in> {1..N} \<and> \<not> (q j \<le> nat n \<and> j \<le> nat m)} = {nat m + 1..N}"
    proof (rule set_eqI)
      fix j show "j \<in> {j. j \<in> {1..N} \<and> \<not> (q j \<le> nat n \<and> j \<le> nat m)} \<longleftrightarrow> j \<in> {nat m + 1..N}"
      proof (cases "j \<in> {1..N}")
        case True
        then show ?thesis using qn[OF True] by auto
      next
        case False
        then show ?thesis by auto
      qed
    qed
    then show "card {j. j \<in> {1..N} \<and> \<not> (q j \<le> nat n \<and> j \<le> nat m)} = N - nat (min n m)"
      using N(3) by simp
  qed
qed

lemma padded_sum:
  assumes n: "0 \<le> n" and m: "0 \<le> m" and b: "bij_betw q {1..nat (max n m)} {1..nat (max n m)}"
  shows "(\<Sum>j\<in>{1..nat (max n m)}. pad n m cost (nat (max n m)) ! (q j) ! j) =
           real_sum n m cost (nat (max n m)) q + PAD_d * real (nat (max n m) - nat (min n m))"
proof -
  define N where "N = nat (max n m)"
  define R where "R = {j. j \<in> {1..N} \<and> \<not> (int (q j) \<le> n \<and> int j \<le> m)}"
  have qr: "q j \<in> {1..N}" if "j \<in> {1..N}" for j
    using b that unfolding bij_betw_def N_def by blast
  have cell: "pad n m cost N ! (q j) ! j =
      (if 0 < q j \<and> int (q j) \<le> n \<and> int j \<le> m then cost (q j - 1) (j - 1) else 0) +
      (if j \<in> R then PAD_d else 0)" if j: "j \<in> {1..N}" for j
  proof -
    have pos: "0 < q j" "0 < j" "q j \<le> N" "j \<le> N" using qr[OF j] j by simp_all
    have e: "pad n m cost N ! (q j) ! j = pad_cell n m cost (q j) j"
      using pos by (simp add: pad_nth)
    show ?thesis
    proof (cases "int (q j) \<le> n \<and> int j \<le> m")
      case True
      then have "j \<notin> R" by (simp add: R_def)
      then show ?thesis using True pos unfolding e by (simp add: pad_cell_def)
    next
      case False
      then have "j \<in> R" using j by (simp add: R_def)
      moreover have "pad_cell n m cost (q j) j = PAD_d"
        unfolding pad_cell_def using False by auto
      moreover have "(if 0 < q j \<and> int (q j) \<le> n \<and> int j \<le> m then cost (q j - 1) (j - 1) else 0) = 0"
        using False by auto
      ultimately show ?thesis unfolding e by simp
    qed
  qed
  have "(\<Sum>j\<in>{1..N}. pad n m cost N ! (q j) ! j) =
        (\<Sum>j\<in>{1..N}. (if 0 < q j \<and> int (q j) \<le> n \<and> int j \<le> m then cost (q j - 1) (j - 1) else 0) +
                        (if j \<in> R then PAD_d else 0))"
    using cell by (intro sum.cong) simp_all
  also have "\<dots> = real_sum n m cost N q + (\<Sum>j\<in>{1..N}. if j \<in> R then PAD_d else 0)"
    by (simp add: sum.distrib real_sum_def)
  also have "(\<Sum>j\<in>{1..N}. if j \<in> R then PAD_d else 0) = PAD_d * real (card R)"
  proof -
    have "R \<subseteq> {1..N}" by (auto simp: R_def)
    then have "{1..N} \<inter> R = R" by blast
    then show ?thesis by (simp add: sum.If_cases)
  qed
  also have "card R = N - nat (min n m)"
    unfolding R_def N_def by (rule padding_count[OF n m b])
  finally show ?thesis unfolding N_def .
qed

lemma rect_run:
  assumes n: "0 \<le> n" and m: "0 \<le> m" and sc: "small_costs n m cost" and l: "length out = nat m"
  shows "\<exists>ps. hungarian n m cost out =
             Some (real_sum n m cost (nat (max n m)) ((!) ps), map (job_entry n ps) [0..<nat m]) \<and>
           bij_betw ((!) ps) {1..nat (max n m)} {1..nat (max n m)} \<and>
           (\<forall>q. bij_betw q {1..nat (max n m)} {1..nat (max n m)} \<longrightarrow>
              real_sum n m cost (nat (max n m)) ((!) ps) \<le> real_sum n m cost (nat (max n m)) q)"
proof -
  define N where "N = nat (max n m)"
  define a where "a = pad n m cost N"
  obtain s where s: "insert_rows a N [1..<N + 1] (init_state N) = Some s" "rows_inv a N N s"
    using small_costs_returns[OF sc] unfolding N_def a_def by blast
  note full = rows_inv_full[OF s(2)]
  define ps where "ps = p s"
  have bp: "bij_betw ((!) ps) {1..N} {1..N}" using full(1) by (simp add: ps_def)
  have h: "hungarian n m cost out =
      Some (real_sum n m cost N ((!) ps), map (job_entry n ps) [0..<nat m])"
    using hungarian_Some[of n m cost s out] s(1) l
    unfolding a_def ps_def N_def total_cost_real_sum by simp
  have opt: "real_sum n m cost N ((!) ps) \<le> real_sum n m cost N q"
    if bq: "bij_betw q {1..N} {1..N}" for q
  proof -
    have "(\<Sum>j\<in>{1..N}. a ! (ps ! j) ! j) \<le> (\<Sum>j\<in>{1..N}. a ! (q j) ! j)"
    proof (rule square_optimal[where uf = "(!) (u s)" and vf = "(!) (v s)", OF bp _ _ bq])
      show "a ! (ps ! j) ! j = u s ! (ps ! j) + v s ! j" if "j \<in> {1..N}" for j
        using full(2)[OF that] by (simp add: rc_def ps_def)
      show "u s ! r + v s ! j \<le> a ! r ! j" if "r \<in> {1..N}" "j \<in> {1..N}" for r j
        using full(3)[OF that] by (simp add: rc_def)
    qed
    moreover have "(\<Sum>j\<in>{1..N}. a ! (ps ! j) ! j) =
        real_sum n m cost N ((!) ps) + PAD_d * real (N - nat (min n m))"
      unfolding a_def N_def by (rule padded_sum[OF n m bp[unfolded N_def]])
    moreover have "(\<Sum>j\<in>{1..N}. a ! (q j) ! j) =
        real_sum n m cost N q + PAD_d * real (N - nat (min n m))"
      unfolding a_def N_def by (rule padded_sum[OF n m bq[unfolded N_def]])
    ultimately show ?thesis by linarith
  qed
  show ?thesis using h bp opt unfolding N_def by blast
qed

lemma extend_perm_props:
  assumes b: "bij_betw f {..<k} {..<k}" and r: "1 \<le> r"
  shows "extend_perm k f r \<le> k \<longleftrightarrow> r \<le> k"
    and "1 \<le> extend_perm k f r"
    and "r \<le> k \<Longrightarrow> extend_perm k f r - 1 = f (r - 1)"
proof -
  have im: "f ` {..<k} = {..<k}" using b unfolding bij_betw_def by blast
  have lt: "f (r - 1) < k" if "r \<le> k"
  proof -
    have "r - 1 \<in> {..<k}" using that r by simp
    then have "f (r - 1) \<in> {..<k}" using im by blast
    then show ?thesis by simp
  qed
  show "extend_perm k f r \<le> k \<longleftrightarrow> r \<le> k"
  proof (cases "r \<le> k")
    case True
    then show ?thesis using lt[OF True] by (simp add: extend_perm_def)
  next
    case False
    then show ?thesis by (simp add: extend_perm_def)
  qed
  show "1 \<le> extend_perm k f r" using r by (simp add: extend_perm_def)
  show "extend_perm k f r - 1 = f (r - 1)" if "r \<le> k"
    using that by (simp add: extend_perm_def)
qed

lemma extend_perm_bij:
  assumes b: "bij_betw f {..<k} {..<k}" and k: "k \<le> N"
  shows "bij_betw (extend_perm k f) {1..N} {1..N}"
proof -
  have inj: "inj_on f {..<k}" using b unfolding bij_betw_def by blast
  have i1: "inj_on (extend_perm k f) {1..N}"
  proof (rule inj_onI)
    fix x y assume h: "x \<in> {1..N}" "y \<in> {1..N}" "extend_perm k f x = extend_perm k f y"
    have x1: "1 \<le> x" and y1: "1 \<le> y" using h by simp_all
    show "x = y"
    proof (cases "x \<le> k")
      case True
      then have "extend_perm k f x \<le> k" using extend_perm_props(1)[OF b x1] by simp
      then have yk: "y \<le> k" using extend_perm_props(1)[OF b y1] h(3) by simp
      have "f (x - 1) = f (y - 1)"
        using extend_perm_props(3)[OF b x1 True] extend_perm_props(3)[OF b y1 yk] h(3) by simp
      moreover have "x - 1 \<in> {..<k}" "y - 1 \<in> {..<k}" using True yk x1 y1 by simp_all
      ultimately have "x - 1 = y - 1" using inj unfolding inj_on_def by blast
      then show ?thesis using x1 y1 by simp
    next
      case False
      then have "\<not> extend_perm k f x \<le> k" using extend_perm_props(1)[OF b x1] by simp
      then have "\<not> y \<le> k" using extend_perm_props(1)[OF b y1] h(3) by simp
      then show ?thesis using False h(3) by (simp add: extend_perm_def)
    qed
  qed
  moreover have "extend_perm k f ` {1..N} \<subseteq> {1..N}"
  proof
    fix y assume "y \<in> extend_perm k f ` {1..N}"
    then obtain x where x: "x \<in> {1..N}" "y = extend_perm k f x" by blast
    have x1: "1 \<le> x" using x by simp
    have "y \<le> N"
    proof (cases "x \<le> k")
      case True
      then have "y \<le> k" using extend_perm_props(1)[OF b x1] x(2) by simp
      then show ?thesis using k by simp
    next
      case False
      then show ?thesis using x by (simp add: extend_perm_def)
    qed
    then show "y \<in> {1..N}" using extend_perm_props(2)[OF b x1] x(2) by simp
  qed
  ultimately have "extend_perm k f ` {1..N} = {1..N}"
    by (intro endo_inj_surj) simp_all
  then show ?thesis using i1 unfolding bij_betw_def by blast
qed

lemma real_sum_cong:
  assumes "\<And>i j. int i < n \<Longrightarrow> int j < m \<Longrightarrow> c1 i j = c2 i j"
  shows "real_sum n m c1 N q = real_sum n m c2 N q"
  unfolding real_sum_def
proof (rule sum.cong)
  fix j assume "j \<in> {1..N}"
  then have j1: "1 \<le> j" by simp
  show "(if 0 < q j \<and> int (q j) \<le> n \<and> int j \<le> m then c1 (q j - 1) (j - 1) else 0) =
        (if 0 < q j \<and> int (q j) \<le> n \<and> int j \<le> m then c2 (q j - 1) (j - 1) else 0)"
  proof (cases "0 < q j \<and> int (q j) \<le> n \<and> int j \<le> m")
    case True
    then have "int (q j - 1) < n" "int (j - 1) < m" using j1 by linarith+
    then have "c1 (q j - 1) (j - 1) = c2 (q j - 1) (j - 1)" by (rule assms)
    then show ?thesis unfolding if_P[OF True] .
  next
    case False
    show ?thesis unfolding if_not_P[OF False] ..
  qed
qed simp

lemma real_sum_permuted:
  assumes n: "0 \<le> n" and m: "0 \<le> m"
    and bs: "bij_betw \<sigma> {..<nat n} {..<nat n}" and bt: "bij_betw \<tau> {..<nat m} {..<nat m}"
    and bq: "bij_betw q {1..nat (max n m)} {1..nat (max n m)}"
  shows "\<exists>q'. bij_betw q' {1..nat (max n m)} {1..nat (max n m)} \<and>
           real_sum n m (permuted \<sigma> \<tau> cost) (nat (max n m)) q = real_sum n m cost (nat (max n m)) q'"
proof -
  define N where "N = nat (max n m)"
  define S where "S = extend_perm (nat n) \<sigma>"
  define T where "T = extend_perm (nat m) \<tau>"
  define Ti where "Ti = inv_into {1..N} T"
  define q' where "q' = (\<lambda>j. S (q (Ti j)))"
  define h where "h = (\<lambda>r j. if 0 < r \<and> int r \<le> n \<and> int j \<le> m then cost (r - 1) (j - 1) else 0)"
  have kn: "nat n \<le> N" and km: "nat m \<le> N" by (simp_all add: N_def)
  have c1: "int x \<le> n \<longleftrightarrow> x \<le> nat n" for x using n by linarith
  have c2: "int x \<le> m \<longleftrightarrow> x \<le> nat m" for x using m by linarith
  have bS: "bij_betw S {1..N} {1..N}" unfolding S_def by (rule extend_perm_bij[OF bs kn])
  have bT: "bij_betw T {1..N} {1..N}" unfolding T_def by (rule extend_perm_bij[OF bt km])
  have bTi: "bij_betw Ti {1..N} {1..N}" unfolding Ti_def by (rule bij_betw_inv_into[OF bT])
  have bq': "bij_betw q {1..N} {1..N}" using bq unfolding N_def .
  have "bij_betw (S \<circ> (q \<circ> Ti)) {1..N} {1..N}"
    by (rule bij_betw_trans[OF bij_betw_trans[OF bTi bq'] bS])
  then have b': "bij_betw q' {1..N} {1..N}" by (simp add: q'_def comp_def)
  have qr: "q j \<in> {1..N}" if "j \<in> {1..N}" for j
    using bq' that unfolding bij_betw_def by blast
  have injT: "inj_on T {1..N}" using bT unfolding bij_betw_def by blast
  have cellq: "(if 0 < q j \<and> int (q j) \<le> n \<and> int j \<le> m
               then permuted \<sigma> \<tau> cost (q j - 1) (j - 1) else 0) = h (q' (T j)) (T j)"
    if j: "j \<in> {1..N}" for j
  proof -
    have j1: "1 \<le> j" using j by simp
    have r1: "1 \<le> q j" using qr[OF j] by simp
    have e: "Ti (T j) = j" unfolding Ti_def by (rule inv_into_f_f[OF injT j])
    have Sq: "1 \<le> S (q j)" "S (q j) \<le> nat n \<longleftrightarrow> q j \<le> nat n"
      unfolding S_def using extend_perm_props(1,2)[OF bs r1] by simp_all
    have Tj: "T j \<le> nat m \<longleftrightarrow> j \<le> nat m"
      unfolding T_def using extend_perm_props(1)[OF bt j1] by simp
    show ?thesis
    proof (cases "q j \<le> nat n \<and> j \<le> nat m")
      case True
      have "S (q j) - 1 = \<sigma> (q j - 1)"
        unfolding S_def using extend_perm_props(3)[OF bs r1] True by simp
      moreover have "T j - 1 = \<tau> (j - 1)"
        unfolding T_def using extend_perm_props(3)[OF bt j1] True by simp
      moreover have "0 < q j \<and> int (q j) \<le> n \<and> int j \<le> m" using True r1 c1 c2 by simp
      moreover have "0 < S (q j) \<and> int (S (q j)) \<le> n \<and> int (T j) \<le> m"
        using True Sq Tj c1 c2 by simp
      ultimately show ?thesis
        unfolding h_def q'_def e by (simp add: permuted_def)
    next
      case False
      then have A: "\<not> (0 < q j \<and> int (q j) \<le> n \<and> int j \<le> m)" using c1 c2 by simp
      have B: "\<not> (0 < S (q j) \<and> int (S (q j)) \<le> n \<and> int (T j) \<le> m)"
        using False Sq Tj c1 c2 by simp
      show ?thesis unfolding h_def q'_def e if_not_P[OF A] if_not_P[OF B] ..
    qed
  qed
  have "real_sum n m (permuted \<sigma> \<tau> cost) N q = (\<Sum>j\<in>{1..N}. h (q' (T j)) (T j))"
    unfolding real_sum_def using cellq by (intro sum.cong) simp_all
  also have "\<dots> = (\<Sum>j\<in>{1..N}. h (q' j) j)"
    by (rule sum.reindex_bij_betw[OF bT])
  also have "\<dots> = real_sum n m cost N q'"
    unfolding real_sum_def h_def ..
  finally show ?thesis using b' unfolding N_def by blast
qed

lemma real_sum_unpermuted:
  assumes n: "0 \<le> n" and m: "0 \<le> m"
    and bs: "bij_betw \<sigma> {..<nat n} {..<nat n}" and bt: "bij_betw \<tau> {..<nat m} {..<nat m}"
    and bq: "bij_betw q {1..nat (max n m)} {1..nat (max n m)}"
  shows "\<exists>q'. bij_betw q' {1..nat (max n m)} {1..nat (max n m)} \<and>
           real_sum n m cost (nat (max n m)) q =
           real_sum n m (permuted \<sigma> \<tau> cost) (nat (max n m)) q'"
proof -
  define si where "si = inv_into {..<nat n} \<sigma>"
  define ti where "ti = inv_into {..<nat m} \<tau>"
  have bsi: "bij_betw si {..<nat n} {..<nat n}" unfolding si_def by (rule bij_betw_inv_into[OF bs])
  have bti: "bij_betw ti {..<nat m} {..<nat m}" unfolding ti_def by (rule bij_betw_inv_into[OF bt])
  have ims: "\<sigma> ` {..<nat n} = {..<nat n}" using bs unfolding bij_betw_def by blast
  have imt: "\<tau> ` {..<nat m} = {..<nat m}" using bt unfolding bij_betw_def by blast
  have undo: "permuted si ti (permuted \<sigma> \<tau> cost) i j = cost i j"
    if i: "int i < n" and j: "int j < m" for i j
  proof -
    have "i < nat n" using i by linarith
    then have "i \<in> \<sigma> ` {..<nat n}" unfolding ims by simp
    then have 1: "\<sigma> (si i) = i" unfolding si_def by (rule f_inv_into_f)
    have "j < nat m" using j by linarith
    then have "j \<in> \<tau> ` {..<nat m}" unfolding imt by simp
    then have 2: "\<tau> (ti j) = j" unfolding ti_def by (rule f_inv_into_f)
    show ?thesis unfolding permuted_def 1 2 ..
  qed
  obtain q' where q': "bij_betw q' {1..nat (max n m)} {1..nat (max n m)}"
    "real_sum n m (permuted si ti (permuted \<sigma> \<tau> cost)) (nat (max n m)) q =
     real_sum n m (permuted \<sigma> \<tau> cost) (nat (max n m)) q'"
    using real_sum_permuted[OF n m bsi bti bq, of "permuted \<sigma> \<tau> cost"] by blast
  have "real_sum n m (permuted si ti (permuted \<sigma> \<tau> cost)) (nat (max n m)) q =
        real_sum n m cost (nat (max n m)) q"
    by (rule real_sum_cong) (rule undo)
  then show ?thesis using q' by auto
qed

lemma permuted_small:
  assumes sc: "small_costs n m cost"
    and bs: "bij_betw \<sigma> {..<nat n} {..<nat n}" and bt: "bij_betw \<tau> {..<nat m} {..<nat m}"
  shows "small_costs n m (permuted \<sigma> \<tau> cost)"
  unfolding small_costs_def
proof (intro allI impI)
  fix i j assume h: "int i < n \<and> int j < m"
  have ims: "\<sigma> ` {..<nat n} = {..<nat n}" using bs unfolding bij_betw_def by blast
  have imt: "\<tau> ` {..<nat m} = {..<nat m}" using bt unfolding bij_betw_def by blast
  have "i < nat n" "j < nat m" using h by linarith+
  then have "i \<in> {..<nat n}" "j \<in> {..<nat m}" by simp_all
  then have "\<sigma> i \<in> {..<nat n}" "\<tau> j \<in> {..<nat m}" using ims imt by blast+
  then have "\<sigma> i < nat n" "\<tau> j < nat m" by simp_all
  then have "int (\<sigma> i) < n \<and> int (\<tau> j) < m" by linarith
  then have "\<bar>cost (\<sigma> i) (\<tau> j)\<bar> \<le> BND_d" using sc unfolding small_costs_def by blast
  then show "\<bar>permuted \<sigma> \<tau> cost i j\<bar> \<le> BND_d" unfolding permuted_def .
qed

lemma assigned_cost_real_sum:
  assumes b: "bij_betw ((!) ps) {1..N} {1..N}" and mN: "nat m \<le> N"
  shows "real_sum n m cost N ((!) ps) = assigned_cost cost (map (job_entry n ps) [0..<nat m])"
proof -
  define g where "g = (\<lambda>j. if 0 < ps ! j \<and> int (ps ! j) \<le> n \<and> int j \<le> m
                            then cost (ps ! j - 1) (j - 1) else 0)"
  have rng: "ps ! j \<in> {1..N}" if "j \<in> {1..N}" for j
    using b that unfolding bij_betw_def by blast
  have z: "g j = 0" if "j \<in> {1..N} - {1..nat m}" for j
  proof -
    have "\<not> int j \<le> m" using that by auto
    then have "\<not> (0 < ps ! j \<and> int (ps ! j) \<le> n \<and> int j \<le> m)" by blast
    then show ?thesis unfolding g_def by (rule if_not_P)
  qed
  have "real_sum n m cost N ((!) ps) = (\<Sum>j\<in>{1..N}. g j)"
    unfolding real_sum_def g_def ..
  also have "\<dots> = (\<Sum>j\<in>{1..nat m}. g j)"
  proof (rule sum.mono_neutral_right)
    show "finite {1..N}" by simp
    show "{1..nat m} \<subseteq> {1..N}" using mN by auto
    show "\<forall>j\<in>{1..N} - {1..nat m}. g j = 0" using z by blast
  qed
  also have "\<dots> = (\<Sum>j<nat m. g (j + 1))" by (rule sum_shift)
  also have "\<dots> = (\<Sum>j<nat m. if job_entry n ps j = - 1 then 0
                                   else cost (nat (job_entry n ps j)) j)"
  proof (rule sum.cong)
    fix j assume "j \<in> {..<nat m}"
    then have j: "j < nat m" by simp
    then have "j + 1 \<in> {1..N}" using mN by simp
    then have pos: "0 < ps ! (j + 1)" using rng[of "j + 1"] by simp
    have jm: "int (j + 1) \<le> m" using j by linarith
    show "g (j + 1) = (if job_entry n ps j = - 1 then 0 else cost (nat (job_entry n ps j)) j)"
    proof (cases "int (ps ! (j + 1)) \<le> n")
      case True
      have c: "0 < ps ! (j + 1) \<and> int (ps ! (j + 1)) \<le> n \<and> int (j + 1) \<le> m"
        using pos True jm by blast
      have c': "0 < ps ! (j + 1) \<and> int (ps ! (j + 1)) \<le> n" using pos True by blast
      have je: "job_entry n ps j = int (ps ! (j + 1)) - 1"
        unfolding job_entry_def by (rule if_P[OF c'])
      have ne: "job_entry n ps j \<noteq> - 1" unfolding je using pos by linarith
      have nn: "nat (job_entry n ps j) = ps ! (j + 1) - 1" unfolding je by linarith
      have "g (j + 1) = cost (ps ! (j + 1) - 1) (j + 1 - 1)"
        unfolding g_def by (rule if_P[OF c])
      then show ?thesis unfolding if_not_P[OF ne] nn by simp
    next
      case False
      have c: "\<not> (0 < ps ! (j + 1) \<and> int (ps ! (j + 1)) \<le> n \<and> int (j + 1) \<le> m)"
        using False by blast
      have c': "\<not> (0 < ps ! (j + 1) \<and> int (ps ! (j + 1)) \<le> n)" using False by blast
      have je: "job_entry n ps j = - 1"
        unfolding job_entry_def by (rule if_not_P[OF c'])
      have "g (j + 1) = 0" unfolding g_def by (rule if_not_P[OF c])
      then show ?thesis unfolding if_P[OF je] .
    qed
  qed simp
  also have "\<dots> = assigned_cost cost (map (job_entry n ps) [0..<nat m])"
    unfolding assigned_cost_def by (rule sum.cong) simp_all
  finally show ?thesis .
qed

lemma run_matching:
  assumes n: "0 \<le> n" and m: "0 \<le> m" and l: "length out = nat m"
    and h: "hungarian n m cost out = Some (t, map (job_entry n ps) [0..<nat m])"
    and b: "bij_betw ((!) ps) {1..nat (max n m)} {1..nat (max n m)}"
  shows "matching n m (map (job_entry n ps) [0..<nat m])"
proof -
  define A where "A = map (job_entry n ps) [0..<nat m]"
  have l': "nat m \<le> length out" using l by simp
  have e: "A ! j = job_entry n ps j" if "j < nat m" for j
    using that by (simp add: A_def)
  have rc: "card {j. j < nat m \<and> 0 \<le> A ! j \<and> A ! j < n} = nat (min n m)"
    using returned_counts[OF n m l', of cost] h unfolding A_def by blast
  have 1: "length A = nat m" by (simp add: A_def)
  have 2: "\<forall>j<nat m. A ! j = - 1 \<or> (0 \<le> A ! j \<and> A ! j < n)"
    using e job_entry_range by simp
  have 3: "\<forall>j<nat m. \<forall>k<nat m. A ! j = A ! k \<and> A ! j \<noteq> - 1 \<longrightarrow> j = k"
  proof (intro allI impI)
    fix j k assume j: "j < nat m" and k: "k < nat m" and q: "A ! j = A ! k \<and> A ! j \<noteq> - 1"
    have jj: "j < nat (max n m)" "k < nat (max n m)" using j k by simp_all
    have "job_entry n ps j = job_entry n ps k" "job_entry n ps j \<noteq> - 1"
      using q e[OF j] e[OF k] by simp_all
    then show "j = k" by (rule job_entry_inj[OF b jj])
  qed
  have "{j. j < nat m \<and> A ! j \<noteq> - 1} = {j. j < nat m \<and> 0 \<le> A ! j \<and> A ! j < n}"
  proof (rule set_eqI)
    fix j
    show "j \<in> {j. j < nat m \<and> A ! j \<noteq> - 1} \<longleftrightarrow> j \<in> {j. j < nat m \<and> 0 \<le> A ! j \<and> A ! j < n}"
    proof (cases "j < nat m")
      case True
      have "A ! j = - 1 \<or> (0 \<le> A ! j \<and> A ! j < n)" using 2 True by blast
      then have "A ! j \<noteq> - 1 \<longleftrightarrow> 0 \<le> A ! j \<and> A ! j < n" by linarith
      then show ?thesis using True by simp
    next
      case False
      then show ?thesis by simp
    qed
  qed
  then have 4: "card {j. j < nat m \<and> A ! j \<noteq> - 1} = nat (min n m)" using rc by simp
  show ?thesis unfolding matching_def A_def[symmetric] by (rule conjI 1 2 3 4)+
qed

lemma transported_unique:
  assumes bs: "bij_betw \<sigma> {..<nat n} {..<nat n}" and bt: "bij_betw \<tau> {..<nat m} {..<nat m}"
    and m2: "matching n m out2"
    and c2: "assigned_cost (permuted \<sigma> \<tau> cost) out2 = t"
    and uq: "\<forall>A. matching n m A \<and> assigned_cost cost A = t \<longrightarrow> A = out1"
  shows "transported m \<sigma> \<tau> out1 out2"
proof -
  define M where "M = nat m"
  define ti where "ti = inv_into {..<M} \<tau>"
  define w where "w = (\<lambda>j. if out2 ! j = - 1 then - 1 else int (\<sigma> (nat (out2 ! j))))"
  define A where "A = map (\<lambda>j'. w (ti j')) [0..<M]"
  define f where "f = (\<lambda>j. if out2 ! j = - 1 then 0 else cost (\<sigma> (nat (out2 ! j))) (\<tau> j))"
  have bt': "bij_betw \<tau> {..<M} {..<M}" using bt unfolding M_def .
  have bti: "bij_betw ti {..<M} {..<M}" unfolding ti_def by (rule bij_betw_inv_into[OF bt'])
  have injs: "inj_on \<sigma> {..<nat n}" and ims: "\<sigma> ` {..<nat n} = {..<nat n}"
    using bs unfolding bij_betw_def by blast+
  have injt: "inj_on \<tau> {..<M}" and imt: "\<tau> ` {..<M} = {..<M}"
    using bt' unfolding bij_betw_def by blast+
  have imti: "ti ` {..<M} = {..<M}" using bti unfolding bij_betw_def by blast
  have tiM: "ti j' < M" if "j' < M" for j'
  proof -
    have "j' \<in> {..<M}" using that by simp
    then have "ti j' \<in> {..<M}" using imti by blast
    then show ?thesis by simp
  qed
  have tM: "\<tau> j < M" if "j < M" for j
  proof -
    have "j \<in> {..<M}" using that by simp
    then have "\<tau> j \<in> {..<M}" using imt by blast
    then show ?thesis by simp
  qed
  have t_ti: "\<tau> (ti j') = j'" if "j' < M" for j'
  proof -
    have "j' \<in> \<tau> ` {..<M}" unfolding imt using that by simp
    then show ?thesis unfolding ti_def by (rule f_inv_into_f)
  qed
  have ti_t: "ti (\<tau> j) = j" if "j < M" for j
  proof -
    have "j \<in> {..<M}" using that by simp
    then show ?thesis unfolding ti_def by (rule inv_into_f_f[OF injt])
  qed
  have len2: "length out2 = M"
    and rng2: "\<And>j. j < M \<Longrightarrow> out2 ! j = - 1 \<or> (0 \<le> out2 ! j \<and> out2 ! j < n)"
    and inj2: "\<And>j k. j < M \<Longrightarrow> k < M \<Longrightarrow> out2 ! j = out2 ! k \<Longrightarrow> out2 ! j \<noteq> - 1 \<Longrightarrow> j = k"
    and card2: "card {j. j < M \<and> out2 ! j \<noteq> - 1} = nat (min n m)"
    using m2 unfolding matching_def M_def by blast+
  have An: "A ! j' = w (ti j')" if "j' < M" for j'
    using that by (simp add: A_def)
  have wneg: "w j = - 1" if "out2 ! j = - 1" for j
    unfolding w_def by (rule if_P[OF that])
  have wpos: "w j = int (\<sigma> (nat (out2 ! j)))" if "out2 ! j \<noteq> - 1" for j
    unfolding w_def by (rule if_not_P[OF that])
  have wne: "w j \<noteq> - 1 \<longleftrightarrow> out2 ! j \<noteq> - 1" for j
  proof (cases "out2 ! j = - 1")
    case True
    then show ?thesis using wneg[OF True] by simp
  next
    case False
    have "0 \<le> w j" unfolding wpos[OF False] by simp
    then show ?thesis using False by linarith
  qed
  have sig: "\<sigma> (nat (out2 ! j)) < nat n \<and> nat (out2 ! j) < nat n"
    if j: "j < M" and ne: "out2 ! j \<noteq> - 1" for j
  proof -
    have "0 \<le> out2 ! j \<and> out2 ! j < n" using rng2[OF j] ne by blast
    then have a: "nat (out2 ! j) < nat n" by linarith
    then have "nat (out2 ! j) \<in> {..<nat n}" by simp
    then have "\<sigma> (nat (out2 ! j)) \<in> {..<nat n}" using ims by blast
    then show ?thesis using a by simp
  qed
  have 1: "length A = nat m" by (simp add: A_def M_def)
  have 2: "\<forall>j'<nat m. A ! j' = - 1 \<or> (0 \<le> A ! j' \<and> A ! j' < n)"
  proof (intro allI impI)
    fix j' assume "j' < nat m"
    then have j': "j' < M" by (simp add: M_def)
    show "A ! j' = - 1 \<or> (0 \<le> A ! j' \<and> A ! j' < n)"
    proof (cases "out2 ! (ti j') = - 1")
      case True
      then show ?thesis unfolding An[OF j'] using wneg by simp
    next
      case False
      have "\<sigma> (nat (out2 ! (ti j'))) < nat n" using sig[OF tiM[OF j'] False] by blast
      then have "0 \<le> int (\<sigma> (nat (out2 ! (ti j')))) \<and> int (\<sigma> (nat (out2 ! (ti j')))) < n"
        by linarith
      then show ?thesis unfolding An[OF j'] wpos[OF False] by blast
    qed
  qed
  have 3: "\<forall>j'<nat m. \<forall>k'<nat m. A ! j' = A ! k' \<and> A ! j' \<noteq> - 1 \<longrightarrow> j' = k'"
  proof (intro allI impI)
    fix j' k' assume "j' < nat m" "k' < nat m" and q: "A ! j' = A ! k' \<and> A ! j' \<noteq> - 1"
    then have j': "j' < M" and k': "k' < M" by (simp_all add: M_def)
    have wq: "w (ti j') = w (ti k')" "w (ti j') \<noteq> - 1" "w (ti k') \<noteq> - 1"
      using q unfolding An[OF j'] An[OF k'] by simp_all
    have nj: "out2 ! (ti j') \<noteq> - 1" and nk: "out2 ! (ti k') \<noteq> - 1"
      using wq(2,3) wne by blast+
    have "int (\<sigma> (nat (out2 ! (ti j')))) = int (\<sigma> (nat (out2 ! (ti k'))))"
      using wq(1) unfolding wpos[OF nj] wpos[OF nk] .
    then have "\<sigma> (nat (out2 ! (ti j'))) = \<sigma> (nat (out2 ! (ti k')))" by simp
    moreover have "nat (out2 ! (ti j')) \<in> {..<nat n}" "nat (out2 ! (ti k')) \<in> {..<nat n}"
      using sig[OF tiM[OF j'] nj] sig[OF tiM[OF k'] nk] by simp_all
    ultimately have "nat (out2 ! (ti j')) = nat (out2 ! (ti k'))"
      using injs unfolding inj_on_def by blast
    moreover have "0 \<le> out2 ! (ti j')" "0 \<le> out2 ! (ti k')"
      using rng2[OF tiM[OF j']] rng2[OF tiM[OF k']] nj nk by blast+
    ultimately have "out2 ! (ti j') = out2 ! (ti k')" by linarith
    then have "ti j' = ti k'" using inj2[OF tiM[OF j'] tiM[OF k'] _ nj] by blast
    then have "\<tau> (ti j') = \<tau> (ti k')" by simp
    then show "j' = k'" unfolding t_ti[OF j'] t_ti[OF k'] .
  qed
  have S: "{j'. j' < M \<and> A ! j' \<noteq> - 1} = \<tau> ` {j. j < M \<and> out2 ! j \<noteq> - 1}"
  proof (rule set_eqI)
    fix x
    show "x \<in> {j'. j' < M \<and> A ! j' \<noteq> - 1} \<longleftrightarrow> x \<in> \<tau> ` {j. j < M \<and> out2 ! j \<noteq> - 1}"
    proof
      assume "x \<in> {j'. j' < M \<and> A ! j' \<noteq> - 1}"
      then have x: "x < M" "A ! x \<noteq> - 1" by simp_all
      have "out2 ! (ti x) \<noteq> - 1" using x(2) wne unfolding An[OF x(1)] by blast
      then have "ti x \<in> {j. j < M \<and> out2 ! j \<noteq> - 1}" using tiM[OF x(1)] by simp
      then have "\<tau> (ti x) \<in> \<tau> ` {j. j < M \<and> out2 ! j \<noteq> - 1}" by (rule imageI)
      then show "x \<in> \<tau> ` {j. j < M \<and> out2 ! j \<noteq> - 1}" unfolding t_ti[OF x(1)] .
    next
      assume "x \<in> \<tau> ` {j. j < M \<and> out2 ! j \<noteq> - 1}"
      then obtain j where j: "j < M" "out2 ! j \<noteq> - 1" "x = \<tau> j" by blast
      have "w (ti (\<tau> j)) \<noteq> - 1" unfolding ti_t[OF j(1)] using wne j(2) by blast
      then have "A ! (\<tau> j) \<noteq> - 1" unfolding An[OF tM[OF j(1)]] .
      then show "x \<in> {j'. j' < M \<and> A ! j' \<noteq> - 1}" using tM[OF j(1)] j(3) by simp
    qed
  qed
  have "inj_on \<tau> {j. j < M \<and> out2 ! j \<noteq> - 1}"
    by (rule inj_on_subset[OF injt]) auto
  then have "card (\<tau> ` {j. j < M \<and> out2 ! j \<noteq> - 1}) = card {j. j < M \<and> out2 ! j \<noteq> - 1}"
    by (rule card_image)
  then have 4: "card {j'. j' < nat m \<and> A ! j' \<noteq> - 1} = nat (min n m)"
    unfolding M_def[symmetric] S card2 .
  have mA: "matching n m A" unfolding matching_def by (rule conjI 1 2 3 4)+
  have cellA: "(if A ! j' = - 1 then 0 else cost (nat (A ! j')) j') = f (ti j')"
    if j': "j' < M" for j'
  proof (cases "out2 ! (ti j') = - 1")
    case True
    have a: "A ! j' = - 1" unfolding An[OF j'] by (rule wneg[OF True])
    show ?thesis unfolding if_P[OF a] f_def if_P[OF True] ..
  next
    case False
    have a: "A ! j' = int (\<sigma> (nat (out2 ! (ti j'))))" unfolding An[OF j'] by (rule wpos[OF False])
    have ne: "A ! j' \<noteq> - 1" unfolding a by simp
    have na: "nat (A ! j') = \<sigma> (nat (out2 ! (ti j')))" unfolding a by simp
    show ?thesis unfolding if_not_P[OF ne] na f_def if_not_P[OF False] t_ti[OF j'] ..
  qed
  have "assigned_cost cost A = (\<Sum>j'<M. f (ti j'))"
    unfolding assigned_cost_def 1 M_def[symmetric] using cellA by (intro sum.cong) simp_all
  also have "\<dots> = (\<Sum>j<M. f j)" by (rule sum.reindex_bij_betw[OF bti])
  also have "\<dots> = assigned_cost (permuted \<sigma> \<tau> cost) out2"
    unfolding assigned_cost_def len2 f_def permuted_def ..
  finally have "assigned_cost cost A = t" using c2 by simp
  then have AE: "A = out1" using uq mA by blast
  show ?thesis unfolding transported_def
  proof (intro allI impI)
    fix j assume "j < nat m"
    then have j: "j < M" by (simp add: M_def)
    have v: "out1 ! (\<tau> j) = w j"
      unfolding AE[symmetric] An[OF tM[OF j]] ti_t[OF j] ..
    show "if out2 ! j = - 1 then out1 ! (\<tau> j) = - 1
          else out1 ! (\<tau> j) = int (\<sigma> (nat (out2 ! j)))"
    proof (cases "out2 ! j = - 1")
      case True
      show ?thesis unfolding if_P[OF True] v by (rule wneg[OF True])
    next
      case False
      show ?thesis unfolding if_not_P[OF False] v by (rule wpos[OF False])
    qed
  qed
qed

lemma permuted_run:
  assumes n: "0 \<le> n" and m: "0 \<le> m" and sc: "small_costs n m cost"
    and bs: "bij_betw \<sigma> {..<nat n} {..<nat n}" and bt: "bij_betw \<tau> {..<nat m} {..<nat m}"
    and l: "length out = nat m"
  shows "\<exists>t out1 out2. hungarian n m cost out = Some (t, out1) \<and>
           hungarian n m (permuted \<sigma> \<tau> cost) out = Some (t, out2) \<and>
           matching n m out1 \<and> matching n m out2 \<and>
           t = assigned_cost cost out1 \<and> t = assigned_cost (permuted \<sigma> \<tau> cost) out2 \<and>
           ((\<forall>A. matching n m A \<and> assigned_cost cost A = t \<longrightarrow> A = out1) \<longrightarrow>
              transported m \<sigma> \<tau> out1 out2)"
proof -
  define N where "N = nat (max n m)"
  define c' where "c' = permuted \<sigma> \<tau> cost"
  have sc': "small_costs n m c'" unfolding c'_def by (rule permuted_small[OF sc bs bt])
  have mN: "nat m \<le> N" by (simp add: N_def)
  obtain ps1 where p1: "hungarian n m cost out =
             Some (real_sum n m cost N ((!) ps1), map (job_entry n ps1) [0..<nat m])"
      "bij_betw ((!) ps1) {1..N} {1..N}"
      "\<And>q. bij_betw q {1..N} {1..N} \<Longrightarrow> real_sum n m cost N ((!) ps1) \<le> real_sum n m cost N q"
    using rect_run[OF n m sc l] unfolding N_def by blast
  obtain ps2 where p2: "hungarian n m c' out =
             Some (real_sum n m c' N ((!) ps2), map (job_entry n ps2) [0..<nat m])"
      "bij_betw ((!) ps2) {1..N} {1..N}"
      "\<And>q. bij_betw q {1..N} {1..N} \<Longrightarrow> real_sum n m c' N ((!) ps2) \<le> real_sum n m c' N q"
    using rect_run[OF n m sc' l] unfolding N_def by blast
  obtain q1 where q1: "bij_betw q1 {1..N} {1..N}"
      "real_sum n m c' N ((!) ps2) = real_sum n m cost N q1"
    using real_sum_permuted[OF n m bs bt p2(2)[unfolded N_def], of cost]
    unfolding N_def c'_def by blast
  obtain q2 where q2: "bij_betw q2 {1..N} {1..N}"
      "real_sum n m cost N ((!) ps1) = real_sum n m c' N q2"
    using real_sum_unpermuted[OF n m bs bt p1(2)[unfolded N_def], of cost]
    unfolding N_def c'_def by blast
  define t where "t = real_sum n m cost N ((!) ps1)"
  define out1 where "out1 = map (job_entry n ps1) [0..<nat m]"
  define out2 where "out2 = map (job_entry n ps2) [0..<nat m]"
  have "t \<le> real_sum n m c' N ((!) ps2)"
    unfolding t_def using p1(3)[OF q1(1)] q1(2) by simp
  moreover have "real_sum n m c' N ((!) ps2) \<le> t"
    unfolding t_def using p2(3)[OF q2(1)] q2(2) by simp
  ultimately have e: "real_sum n m c' N ((!) ps2) = t" by simp
  have h1: "hungarian n m cost out = Some (t, out1)"
    using p1(1) unfolding t_def out1_def .
  have h2: "hungarian n m c' out = Some (t, out2)"
    using p2(1) unfolding e out2_def .
  have m1: "matching n m out1"
    unfolding out1_def by (rule run_matching[OF n m l p1(1) p1(2)[unfolded N_def]])
  have m2: "matching n m out2"
    unfolding out2_def by (rule run_matching[OF n m l p2(1) p2(2)[unfolded N_def]])
  have a1: "t = assigned_cost cost out1"
    unfolding t_def out1_def by (rule assigned_cost_real_sum[OF p1(2) mN])
  have a2: "t = assigned_cost c' out2"
    unfolding e[symmetric] out2_def by (rule assigned_cost_real_sum[OF p2(2) mN])
  have tr: "transported m \<sigma> \<tau> out1 out2"
    if uq: "\<forall>A. matching n m A \<and> assigned_cost cost A = t \<longrightarrow> A = out1"
    by (rule transported_unique[OF bs bt m2 a2[symmetric, unfolded c'_def] uq])
  have 7: "(\<forall>A. matching n m A \<and> assigned_cost cost A = t \<longrightarrow> A = out1) \<longrightarrow>
              transported m \<sigma> \<tau> out1 out2"
    using tr by blast
  have "hungarian n m cost out = Some (t, out1) \<and>
           hungarian n m (permuted \<sigma> \<tau> cost) out = Some (t, out2) \<and>
           matching n m out1 \<and> matching n m out2 \<and>
           t = assigned_cost cost out1 \<and> t = assigned_cost (permuted \<sigma> \<tau> cost) out2 \<and>
           ((\<forall>A. matching n m A \<and> assigned_cost cost A = t \<longrightarrow> A = out1) \<longrightarrow>
              transported m \<sigma> \<tau> out1 out2)"
    using h1 h2[unfolded c'_def] m1 m2 a1 a2[unfolded c'_def] 7 by (intro conjI)
  then show ?thesis by blast
qed

lemma tie_cost_run: "hungarian 2 2 tie_cost [0, 0] = Some (2, [0, 1])"
  by code_simp

lemma tie_cost_permuted_run:
  "hungarian 2 2 (permuted swap_rows (\<lambda>j. j) tie_cost) [0, 0] = Some (2, [0, 1])"
  by code_simp

lemma square_cost_permuted_run:
  "hungarian 2 2 (permuted swap_rows (\<lambda>j. j) square_cost) [0, 0] = Some (3, [0, 1])"
  by code_simp

lemma swap_rows_bij: "bij_betw swap_rows {..<nat 2} {..<nat 2}"
proof -
  have e: "{..<nat 2} = {0, 1 :: nat}" by auto
  show ?thesis unfolding e bij_betw_def by (auto simp: swap_rows_def inj_on_def)
qed

lemma id_bij: "bij_betw (\<lambda>j. j) {..<nat 2} {..<nat 2}"
  by (simp add: bij_betw_def)

lemma square_cost_unique:
  "\<forall>A. matching 2 2 A \<and> assigned_cost square_cost A = 3 \<longrightarrow> A = [1, 0]"
proof (intro allI impI)
  fix A assume h: "matching 2 2 A \<and> assigned_cost square_cost A = 3"
  have len: "length A = 2" using h unfolding matching_def by simp
  have rng: "A ! j = - 1 \<or> (0 \<le> A ! j \<and> A ! j < 2)" if "j < 2" for j
    using h that unfolding matching_def by simp
  have mi: "\<forall>j<2. \<forall>k<2. A ! j = A ! k \<and> A ! j \<noteq> - 1 \<longrightarrow> j = k"
    using h unfolding matching_def by simp
  have cd: "card {j. j < 2 \<and> A ! j \<noteq> - 1} = 2"
    using h unfolding matching_def by simp
  have "{j. j < 2 \<and> A ! j \<noteq> - 1} = {..<2}"
    by (rule card_subset_eq) (use cd in auto)
  then have "0 \<in> {j. j < 2 \<and> A ! j \<noteq> - 1}" "1 \<in> {j. j < 2 \<and> A ! j \<noteq> - 1}"
    by simp_all
  then have ne: "A ! 0 \<noteq> - 1" "A ! 1 \<noteq> - 1" by simp_all
  have v0: "A ! 0 = 0 \<or> A ! 0 = 1" using rng[of 0] ne(1) by auto
  have v1: "A ! 1 = 0 \<or> A ! 1 = 1" using rng[of 1] ne(2) by auto
  have d: "A ! 0 \<noteq> A ! 1"
  proof
    assume "A ! 0 = A ! 1"
    then have "A ! 0 = A ! 1 \<and> A ! 0 \<noteq> - 1" using ne(1) by blast
    moreover have "(0 :: nat) < 2" "(1 :: nat) < 2" by simp_all
    ultimately have "(0 :: nat) = 1" using mi by blast
    then show False by simp
  qed
  have A: "A = [A ! 0, A ! 1]"
  proof (rule nth_equalityI)
    show "length A = length [A ! 0, A ! 1]" using len by simp
    fix i assume "i < length A"
    then have "i = 0 \<or> i = 1" using len by auto
    then show "A ! i = [A ! 0, A ! 1] ! i" by auto
  qed
  have c: "assigned_cost square_cost [0, 1] = 7"
    by (simp add: assigned_cost_def square_cost_def matrix_def lessThan_Suc numeral_2_eq_2)
  have "A = [0, 1] \<or> A = [1, 0]" using v0 v1 d A by metis
  moreover have "A \<noteq> [0, 1]" using h c by auto
  ultimately show "A = [1, 0]" by blast
qed

text \<open>
  Claim C8, as amended: let the costs be whole numbers of magnitude at most \<open>10^6\<close>
  (\<open>0 \<le> n, m < INT_MAX\<close>, allocations succeeding), let \<open>\<sigma>\<close> permute the rows and \<open>\<tau>\<close> the
  columns.  The calls on the original and on the permuted matrix both return, with the
  same total cost; each returned assignment gives \<open>min n m\<close> jobs to distinct workers and
  has this total as the sum of its costs in its own matrix.  When no other such
  assignment of the original matrix has this total, the assignment returned for the
  permuted matrix is the original one transported by \<open>\<sigma>\<close> and \<open>\<tau>\<close>: job \<open>j\<close> of the permuted
  matrix is unassigned exactly when job \<open>\<tau> j\<close> of the original is, and otherwise its worker
  \<open>w\<close> is the one with \<open>\<sigma> w\<close> assigned to job \<open>\<tau> j\<close> in the original.
\<close>

theorem permutation_invariance:
  assumes "0 \<le> n" and "0 \<le> m" and "max n m < INT_MAX" and "integer_costs n m cost"
    and "bij_betw \<sigma> {..<nat n} {..<nat n}" and "bij_betw \<tau> {..<nat m} {..<nat m}"
    and "length out = nat m"
  shows "\<exists>t out1 out2. hungarian_call True n m cost out = Some (Inr (t, out1)) \<and>
           hungarian_call True n m (permuted \<sigma> \<tau> cost) out = Some (Inr (t, out2)) \<and>
           matching n m out1 \<and> matching n m out2 \<and>
           t = assigned_cost cost out1 \<and> t = assigned_cost (permuted \<sigma> \<tau> cost) out2 \<and>
           ((\<forall>A. matching n m A \<and> assigned_cost cost A = t \<longrightarrow> A = out1) \<longrightarrow>
              transported m \<sigma> \<tau> out1 out2)"
proof -
  obtain t out1 out2 where r: "hungarian n m cost out = Some (t, out1)"
      "hungarian n m (permuted \<sigma> \<tau> cost) out = Some (t, out2)"
      "matching n m out1 \<and> matching n m out2 \<and>
       t = assigned_cost cost out1 \<and> t = assigned_cost (permuted \<sigma> \<tau> cost) out2 \<and>
       ((\<forall>A. matching n m A \<and> assigned_cost cost A = t \<longrightarrow> A = out1) \<longrightarrow>
          transported m \<sigma> \<tau> out1 out2)"
    using permuted_run[OF assms(1,2) integer_small[OF assms(4)] assms(5,6,7)] by blast
  have 1: "hungarian_call True n m cost out = Some (Inr (t, out1))"
    unfolding hungarian_call_ok[OF assms(3)] r(1) by simp
  have 2: "hungarian_call True n m (permuted \<sigma> \<tau> cost) out = Some (Inr (t, out2))"
    unfolding hungarian_call_ok[OF assms(3)] r(2) by simp
  show ?thesis using 1 2 r(3) by blast
qed

text \<open>
  Witness for C8: the 2 by 2 matrix with rows 4, 1 and 2, 3, and the same matrix with its
  rows exchanged.  Both calls return total 3.  The optimum is unique, and the second
  assignment is the first one transported: job 0 has worker 0 where the original has
  worker 1, and job 1 has worker 1 where the original has worker 0.
\<close>

theorem permutation_invariance_witness:
  "hungarian_call True 2 2 square_cost [0, 0] = Some (Inr (3, [1, 0])) \<and>
   hungarian_call True 2 2 (permuted swap_rows (\<lambda>j. j) square_cost) [0, 0] = Some (Inr (3, [0, 1])) \<and>
   (3 :: real) = assigned_cost square_cost [1, 0] \<and>
   (3 :: real) = assigned_cost (permuted swap_rows (\<lambda>j. j) square_cost) [0, 1] \<and>
   [1, 0 :: int] ! 0 = int (swap_rows (nat ([0, 1 :: int] ! 0))) \<and>
   [1, 0 :: int] ! 1 = int (swap_rows (nat ([0, 1 :: int] ! 1)))"
proof -
  have l: "(0 :: int) \<le> 2" "max 2 2 < INT_MAX" "length [0, 0 :: int] = nat 2"
    by (simp_all add: INT_MAX_def)
  obtain t out1 out2 where r:
      "hungarian_call True 2 2 square_cost [0, 0] = Some (Inr (t, out1))"
      "hungarian_call True 2 2 (permuted swap_rows (\<lambda>j. j) square_cost) [0, 0] = Some (Inr (t, out2))"
      "t = assigned_cost square_cost out1"
      "t = assigned_cost (permuted swap_rows (\<lambda>j. j) square_cost) out2"
      "(\<forall>A. matching 2 2 A \<and> assigned_cost square_cost A = t \<longrightarrow> A = out1) \<longrightarrow>
          transported 2 swap_rows (\<lambda>j. j) out1 out2"
    using permutation_invariance [OF l(1) l(1) l(2) integer_costs_square swap_rows_bij id_bij l(3)]
    by blast
  have c1: "hungarian_call True 2 2 square_cost [0, 0] = Some (Inr (3, [1, 0]))"
    unfolding hungarian_call_ok[OF l(2)] square_cost_run by simp
  have c2: "hungarian_call True 2 2 (permuted swap_rows (\<lambda>j. j) square_cost) [0, 0]
              = Some (Inr (3, [0, 1]))"
    unfolding hungarian_call_ok[OF l(2)] square_cost_permuted_run by simp
  have e: "t = 3" "out1 = [1, 0]" "out2 = [0, 1]" using r(1,2) c1 c2 by simp_all
  have tr: "transported 2 swap_rows (\<lambda>j. j) [1, 0] [0, 1]"
    using r(5) square_cost_unique unfolding e by blast
  have t0: "[1, 0 :: int] ! 0 = int (swap_rows (nat ([0, 1 :: int] ! 0)))"
    using tr[unfolded transported_def, rule_format, of 0] by simp
  have t1: "[1, 0 :: int] ! 1 = int (swap_rows (nat ([0, 1 :: int] ! 1)))"
    using tr[unfolded transported_def, rule_format, of 1] by simp
  show ?thesis using c1 c2 r(3,4) t0 t1 unfolding e by blast
qed

text \<open>
  Counterexample to C8 as stated: on the 2 by 2 matrix of ones, exchanging the two rows
  gives the same matrix, so both calls return the assignment \<open>[0, 1]\<close>.  The original
  assignment transported by the exchange would give job 0 to worker 1, the worker that
  row 0 of the original has become; the call on the permuted matrix gives job 0 to
  worker 0.
\<close>

theorem tied_costs_not_transported:
  "hungarian_call True 2 2 tie_cost [0, 0] = Some (Inr (2, [0, 1])) \<and>
   hungarian_call True 2 2 (permuted swap_rows (\<lambda>j. j) tie_cost) [0, 0] = Some (Inr (2, [0, 1])) \<and>
   [0, 1 :: int] ! 0 \<noteq> int (swap_rows (nat ([0, 1 :: int] ! 0)))"
proof -
  have l: "max 2 2 < INT_MAX" by (simp add: INT_MAX_def)
  have 1: "hungarian_call True 2 2 tie_cost [0, 0] = Some (Inr (2, [0, 1]))"
    unfolding hungarian_call_ok[OF l] tie_cost_run by simp
  have 2: "hungarian_call True 2 2 (permuted swap_rows (\<lambda>j. j) tie_cost) [0, 0]
             = Some (Inr (2, [0, 1]))"
    unfolding hungarian_call_ok[OF l] tie_cost_permuted_run by simp
  have 3: "[0, 1 :: int] ! 0 \<noteq> int (swap_rows (nat ([0, 1 :: int] ! 0)))"
    by (simp add: swap_rows_def)
  show ?thesis by (rule conjI 1 2 3)+
qed

end
